theory Spec2Isabelle
  imports Complex_Main "HOL-Library.Sublist"
begin

section \<open>Python strings\<close>

text \<open>
  A Python \<open>str\<close> is modelled as a HOL \<open>string\<close>; the characters are those with a code
  point below 256. The test \<open>sub in s\<close> is \<^const>\<open>sublist\<close>.

  \<open>str_split sep s\<close> is \<open>s.split(sep)\<close> for a non-empty separator: the text is scanned from
  the left and cut at every occurrence of \<open>sep\<close>, occurrences not overlapping. Every call
  in the source passes a non-empty literal (Python raises \<open>ValueError\<close> on an empty one).
\<close>

function str_split :: "string \<Rightarrow> string \<Rightarrow> string list" where
  "str_split sep [] = [[]]"
| "str_split sep (c # cs) =
     (if sep \<noteq> [] \<and> prefix sep (c # cs)
      then [] # str_split sep (drop (length sep) (c # cs))
      else (case str_split sep cs of
              [] \<Rightarrow> [[c]]
            | r # rs \<Rightarrow> (c # r) # rs))"
  by pat_completeness auto
termination
  by (relation "measure (\<lambda>(sep, s). length s)") (auto simp: neq_Nil_conv)

text \<open>
  \<open>str.isspace\<close> on the code points below 256: the characters removed by \<open>strip()\<close>.
\<close>

definition is_space :: "char \<Rightarrow> bool" where
  "is_space c = ((of_char c :: nat) \<in> {9, 10, 11, 12, 13, 28, 29, 30, 31, 32, 133, 160})"

definition str_strip :: "string \<Rightarrow> string" where
  "str_strip s = rev (dropWhile is_space (rev (dropWhile is_space s)))"

text \<open>
  \<open>str.lower\<close> on the code points below 256: the letters A to Z and the upper-case letters
  of the Latin-1 block (0xC0 to 0xDE without the multiplication sign) move up by 32.
\<close>

definition lower_char :: "char \<Rightarrow> char" where
  "lower_char c =
     (let n = (of_char c :: nat)
      in if (65 \<le> n \<and> n \<le> 90) \<or> (192 \<le> n \<and> n \<le> 222 \<and> n \<noteq> 215)
         then char_of (n + 32) else c)"

definition str_lower :: "string \<Rightarrow> string" where
  "str_lower s = map lower_char s"

text \<open>\<open>sep.join(xs)\<close>.\<close>

fun str_join :: "string \<Rightarrow> string list \<Rightarrow> string" where
  "str_join sep [] = []"
| "str_join sep [x] = x"
| "str_join sep (x # y # ys) = x @ sep @ str_join sep (y # ys)"

section \<open>Exceptions\<close>

text \<open>
  The instances of Python's \<open>Exception\<close> that the modelled code can raise. \<open>CollaboratorError\<close>
  stands for whatever the oracle, the session or the search tool raises.
\<close>

datatype py_exception =
    TimeoutError string
  | IndexError
  | AttributeError
  | TypeError
  | OracleUnavailable
  | CollaboratorError string

text \<open>\<open>xs[i]\<close> for a non-negative index: \<open>IndexError\<close> out of range.\<close>

definition index :: "'a list \<Rightarrow> nat \<Rightarrow> py_exception + 'a" where
  "index xs i = (if i < length xs then Inr (xs ! i) else Inl IndexError)"

section \<open>Messages, collaborators and the record of their calls\<close>

datatype message = SystemMessage string | HumanMessage string | AIMessage string

text \<open>
  The oracle client, the session and the search tool are external. Within one run of a
  loop each is called at most once per iteration, so each is a function of the iteration
  number (the value of \<open>step\<close> after its increment) and of its argument, returning the
  text it produces or the exception it raises. \<open>send_command\<close> gives the text of
  \<open>result.to_observation()\<close>, \<open>search_invoke\<close> the text of \<open>json.dumps(result)\<close>, and
  \<open>time_now\<close> the reading of \<open>time.time()\<close> taken in that iteration, as a real number.
\<close>

record collaborators =
  llm_invoke :: "int \<Rightarrow> message list \<Rightarrow> py_exception + string"
  send_command :: "int \<Rightarrow> string \<Rightarrow> py_exception + string"
  search_invoke :: "int \<Rightarrow> string \<Rightarrow> py_exception + string"
  time_now :: "int \<Rightarrow> real"

text \<open>
  Every call made to a collaborator is recorded, in order, with its argument, and so is
  every reading of the clock: the record is the observable effect of a run and is not a
  variable of the source.
\<close>

datatype event =
    OracleCall "message list"
  | SessionCommand string
  | SearchQuery string
  | ClockRead

fun is_oracle_call :: "event \<Rightarrow> bool" where
  "is_oracle_call (OracleCall p) = True"
| "is_oracle_call (SessionCommand c) = False"
| "is_oracle_call (SearchQuery q) = False"
| "is_oracle_call ClockRead = False"

fun is_clock_read :: "event \<Rightarrow> bool" where
  "is_clock_read ClockRead = True"
| "is_clock_read (OracleCall p) = False"
| "is_clock_read (SessionCommand c) = False"
| "is_clock_read (SearchQuery q) = False"

definition oracle_calls :: "event list \<Rightarrow> nat" where
  "oracle_calls tr = length (filter is_oracle_call tr)"

definition clock_reads :: "event list \<Rightarrow> nat" where
  "clock_reads tr = length (filter is_clock_read tr)"

text \<open>
  The local variables of a loop (\<open>messages\<close>, \<open>commands\<close>, \<open>step\<close>) together with the
  record of calls; the verify loop adds \<open>success\<close> and \<open>issue\<close>.
\<close>

record loop_vars =
  messages :: "message list"
  commands :: "string list"
  step :: int
  trace :: "event list"

record verify_vars = loop_vars +
  success :: bool
  issue :: "string option"

text \<open>How one pass through a loop body ends; an exception keeps the variables it left.\<close>

datatype 'v flow = Raise py_exception 'v | Break 'v | Continue 'v

text \<open>The value a stage hands back: its own dictionary, or \<open>{"exception": e}\<close>.\<close>

datatype 'r stage_return = Returned 'r | ExceptionDict py_exception

text \<open>
  \<open>auto_catch\<close> (state.py): the wrapper calls the function and turns an \<open>Exception\<close> it
  raises into the dictionary \<open>{"exception": e}\<close>.
\<close>

definition auto_catch :: "('a \<Rightarrow> py_exception + 'r) \<Rightarrow> 'a \<Rightarrow> 'r stage_return" where
  "auto_catch func args =
     (case func args of
        Inr r \<Rightarrow> Returned r
      | Inl e \<Rightarrow> ExceptionDict e)"

text \<open>
  The fields of \<open>AgentState\<close> that the two stages read. The formatted system message and
  task message are passed to the stages as texts: the template \<open>ReAct_prompt\<close> and the
  language handlers are not part of the sources.
\<close>

record agent_state =
  exception :: "py_exception option"
  verify_messages :: "message list"
  start_time :: "real option"
  trials :: int

section \<open>The verify stage (verify.py)\<close>

datatype VerifyAction = VerifyCommand string | VerifyIssue string

datatype VerifyObservation = VerifyObservation (v_content: string)

definition VerifyAction_doc :: string where
  "VerifyAction_doc =
    [CHR 0x0A] @ ''    Command: run a command in the bash, reply with following format, your command should not require sudo or interactive input:'' @
    [CHR 0x0A] @ ''        <command>...</command>'' @
    [CHR 0x0A] @ ''        e.g. run pytest with detailed output turned on: <command>pytest -rA</command>'' @
    [CHR 0x0A] @ ''        e.g. <command>tox -- -rA</command>'' @
    [CHR 0x0A] @ ''    Issue: stop the verify loop once you think the setup is complete, and reply with the issue of the setup:'' @
    [CHR 0x0A] @ ''        <issue>...</issue>'' @
    [CHR 0x0A] @ ''        e.g. <issue>some dependency is missing, run `pytest` failed</issue>'' @
    [CHR 0x0A] @ ''        e.g. <issue>None</issue> if you think the setup is correct (remember to tolerate a few test cases failures as long as most tests pass)'' @
    [CHR 0x0A] @ ''    ''"

text \<open>
  \<open>parse_verify_action\<close>: the \<open>if\<close>/\<open>elif\<close> chain on the two opening tags; the indexing
  \<open>[1]\<close> and \<open>[0]\<close> of the split results is written with \<^const>\<open>index\<close>.
\<close>

definition parse_verify_action :: "string \<Rightarrow> py_exception + VerifyAction option" where
  "parse_verify_action response =
     (if sublist ''<command>'' response then
        (case index (str_split ''<command>'' response) 1 of
           Inl e \<Rightarrow> Inl e
         | Inr after_tag \<Rightarrow>
             (case index (str_split ''</command>'' after_tag) 0 of
                Inl e \<Rightarrow> Inl e
              | Inr command \<Rightarrow> Inr (Some (VerifyCommand (str_strip command)))))
      else if sublist ''<issue>'' response then
        (case index (str_split ''<issue>'' response) 1 of
           Inl e \<Rightarrow> Inl e
         | Inr after_tag \<Rightarrow>
             (case index (str_split ''</issue>'' after_tag) 0 of
                Inl e \<Rightarrow> Inl e
              | Inr issue_text \<Rightarrow> Inr (Some (VerifyIssue (str_lower (str_strip issue_text))))))
      else Inr None)"

text \<open>
  \<open>observation_for_verify_action\<close>: the events it causes and the observation or the
  exception. The keyword \<open>success\<close> passed to \<open>VerifyObservation\<close> is not a field of
  that class and is dropped by it; only \<open>content\<close> reaches the caller.
\<close>

fun observation_for_verify_action ::
  "collaborators \<Rightarrow> int \<Rightarrow> VerifyAction option \<Rightarrow> event list \<times> (py_exception + VerifyObservation)" where
  "observation_for_verify_action env i None =
     ([], Inr (VerifyObservation
        (''Please using following format after `Action: ` to make a valid action choice:'' @
         [CHR 0x0A] @ VerifyAction_doc @ [CHR 0x0A])))"
| "observation_for_verify_action env i (Some (VerifyCommand c)) =
     ([SessionCommand c],
      (case send_command env i c of
         Inl e \<Rightarrow> Inl e
       | Inr text \<Rightarrow> Inr (VerifyObservation text)))"
| "observation_for_verify_action env i (Some (VerifyIssue a)) =
     ([], if a = ''none'' then Inr (VerifyObservation []) else Inr (VerifyObservation a))"

definition VERIFY_CONVERSATION_WINDOW :: nat where
  "VERIFY_CONVERSATION_WINDOW = 10"

text \<open>
  The windowed prompt of the verify loop (the \<open>if\<close> on \<open>len(messages)\<close> at the head of the
  loop body). The slice \<open>messages[-10:]\<close> is the last ten messages, or all of them when
  there are fewer.
\<close>

definition verify_input_messages :: "nat \<Rightarrow> message list \<Rightarrow> message list" where
  "verify_input_messages prefix_messages msgs =
     (if length msgs < VERIFY_CONVERSATION_WINDOW + prefix_messages
      then msgs
      else take prefix_messages msgs
           @ drop (length msgs - VERIFY_CONVERSATION_WINDOW) msgs)"

text \<open>
  One pass through the body of the \<open>while\<close> loop of \<open>verify\<close>. \<open>action.action\<close> on the
  \<open>None\<close> that the parser returns raises \<open>AttributeError\<close>.
\<close>

definition verify_body :: "collaborators \<Rightarrow> nat \<Rightarrow> verify_vars \<Rightarrow> verify_vars flow" where
  "verify_body env prefix_messages v =
     (let v1 = v\<lparr>step := step v + 1\<rparr>;
          input_messages = verify_input_messages prefix_messages (messages v1);
          v2 = v1\<lparr>trace := trace v1 @ [OracleCall input_messages]\<rparr>
      in case llm_invoke env (step v1) input_messages of
           Inl e \<Rightarrow> Raise e v2
         | Inr reply \<Rightarrow>
             (case (if sublist ''<think>'' reply
                    then index (str_split ''</think>'' reply) 1
                    else Inr reply) of
                Inl e \<Rightarrow> Raise e v2
              | Inr content \<Rightarrow>
                  (let v3 = v2\<lparr>messages := messages v2 @ [AIMessage content]\<rparr>
                   in case parse_verify_action content of
                        Inl e \<Rightarrow> Raise e v3
                      | Inr None \<Rightarrow> Raise AttributeError v3
                      | Inr (Some action) \<Rightarrow>
                          (let v4 = (case action of
                                       VerifyCommand c \<Rightarrow> v3\<lparr>commands := commands v3 @ [c]\<rparr>
                                     | VerifyIssue a \<Rightarrow> v3);
                               (events, result) =
                                 observation_for_verify_action env (step v1) (Some action);
                               v5 = v4\<lparr>trace := trace v4 @ events\<rparr>
                           in case result of
                                Inl e \<Rightarrow> Raise e v5
                              | Inr observation \<Rightarrow>
                                  (let v6 = v5\<lparr>messages := messages v5 @
                                         [HumanMessage (''Observation:'' @ [CHR 0x0A] @ v_content observation)]\<rparr>
                                   in case action of
                                        VerifyIssue a \<Rightarrow>
                                          (if v_content observation = []
                                           then Break (v6\<lparr>success := True\<rparr>)
                                           else Break (v6\<lparr>issue := Some (v_content observation)\<rparr>))
                                      | VerifyCommand c \<Rightarrow> Continue v6)))))"

function verify_loop ::
  "collaborators \<Rightarrow> nat \<Rightarrow> int \<Rightarrow> verify_vars \<Rightarrow> py_exception option \<times> verify_vars" where
  "verify_loop env prefix_messages max_steps v =
     (if step v < max_steps
      then (case verify_body env prefix_messages v of
              Raise e v' \<Rightarrow> (Some e, v')
            | Break v' \<Rightarrow> (None, v')
            | Continue v' \<Rightarrow> verify_loop env prefix_messages max_steps v')
      else (None, v))"
  by pat_completeness auto
termination
  by (relation "measure (\<lambda>(env, pm, max_steps, v). nat (max_steps - step v))")
     (auto simp: verify_body_def Let_def
        split: sum.splits option.splits VerifyAction.splits prod.splits if_splits)

declare verify_loop.simps [simp del]

record verify_return =
  r_messages :: "message list"
  r_verify_messages :: "message list"
  r_test_commands :: "string list"
  r_commands :: "string list"
  r_trials :: int
  r_success :: bool
  r_issue :: "string option"

text \<open>
  The run of the function \<open>verify\<close> before the wrapper: what it raises or returns, and
  the calls it made. \<open>sys_text\<close> and \<open>task_text\<close> are the two formatted opening messages.
\<close>

definition verify_run ::
  "collaborators \<Rightarrow> string \<Rightarrow> string \<Rightarrow> int \<Rightarrow> agent_state
     \<Rightarrow> (py_exception + verify_return) \<times> event list" where
  "verify_run env sys_text task_text max_steps state =
     (case exception state of
        Some e \<Rightarrow> (Inl e, [])
      | None \<Rightarrow>
          (let messages0 = [SystemMessage sys_text, HumanMessage task_text];
               prefix_messages = length messages0;
               v0 = \<lparr>messages = messages0, commands = [], step = 0, trace = [],
                     success = False, issue = None\<rparr>
           in case verify_loop env prefix_messages max_steps v0 of
                (Some e, v) \<Rightarrow> (Inl e, trace v)
              | (None, v) \<Rightarrow>
                  (Inr \<lparr>r_messages = messages v,
                        r_verify_messages = drop prefix_messages (messages v),
                        r_test_commands = commands v,
                        r_commands = commands v,
                        r_trials = trials state + 1,
                        r_success = success v,
                        r_issue = issue v\<rparr>,
                   trace v)))"

text \<open>The decorated function \<open>verify\<close>: the value the workflow receives.\<close>

definition verify ::
  "collaborators \<Rightarrow> string \<Rightarrow> string \<Rightarrow> int \<Rightarrow> agent_state \<Rightarrow> verify_return stage_return" where
  "verify env sys_text task_text max_steps state =
     auto_catch (\<lambda>(m, s). fst (verify_run env sys_text task_text m s)) (max_steps, state)"

section \<open>The setup stage (setup.py)\<close>

datatype SetupAction = SetupCommand string | SetupSearch string | SetupStop

datatype SetupObservation = SetupObservation (s_content: string) (is_stop: bool)

definition SetupAction_doc :: string where
  "SetupAction_doc =
    [CHR 0x0A] @ ''    Command: run a command in the bash, reply with following format, your command should not require sudo or interactive input:'' @
    [CHR 0x0A] @ ''        <command>bash command</command>'' @
    [CHR 0x0A] @ ''        e.g. install build-essential: <command>apt-get install -y build-essential</command>'' @
    [CHR 0x0A] @ ''        e.g. view file content: <command>cat README.md</command>'' @
    [CHR 0x0A] @ ''    Search: search the web for if you need some information, generate query and reply with following format:'' @
    [CHR 0x0A] @ ''        <search>the search query</search>'' @
    [CHR 0x0A] @ ''        e.g. <search>how to fix '' @ [CHR 0x27] @ ''No module named setuptools'' @ [CHR 0x27] @ ''</search>'' @
    [CHR 0x0A] @ ''        e.g. <search>how to install python3 on ubuntu</search>'' @
    [CHR 0x0A] @ ''        e.g. <search>how to create development environment for python3</search>'' @
    [CHR 0x0A] @ ''    Stop: stop the setup loop once you think the setup is complete, reply with following format:'' @
    [CHR 0x0A] @ ''        <stop></stop>'' @
    [CHR 0x0A] @ ''    ''"

text \<open>
  \<open>SetupActionParser\<close> inherits \<open>clean_response\<close> and \<open>extract_tag_content\<close> from the base
  class \<open>ActionParser\<close>, whose module is not part of the sources: the two methods are
  parameters of the model.
\<close>

record action_parser =
  clean_response :: "string \<Rightarrow> string"
  extract_tag_content :: "string \<Rightarrow> string \<Rightarrow> string option"

text \<open>Python's truth test on a value that is a string or \<open>None\<close>.\<close>

fun truthy :: "string option \<Rightarrow> bool" where
  "truthy None = False"
| "truthy (Some s) = (s \<noteq> [])"

text \<open>\<open>SetupActionParser.parse\<close>: three tests in sequence, each returning at once.\<close>

definition parse_setup_action :: "action_parser \<Rightarrow> string \<Rightarrow> SetupAction option" where
  "parse_setup_action P response0 =
     (let response = clean_response P response0;
          command = extract_tag_content P response ''command''
      in if truthy command then Some (SetupCommand (the command))
         else (let search = extract_tag_content P response ''search''
               in if truthy search then Some (SetupSearch (the search))
                  else if sublist ''<stop>'' response \<and> sublist ''</stop>'' response
                       then Some SetupStop
                       else None))"

text \<open>
  Modelled from the spec: the methods of \<open>ActionParser\<close> (launch/agent/action_parser.py,
  missing from the sources). The spec says that each variant is delimited by an open
  and close tag pair, that parsing extracts the first well-formed tag and ignores the
  surrounding prose, and that a reply with a reasoning delimiter keeps only the content
  following the delimiter.
\<close>

fun after_first :: "string \<Rightarrow> string \<Rightarrow> string option" where
  "after_first sep [] = (if sep = [] then Some [] else None)"
| "after_first sep (c # cs) =
     (if prefix sep (c # cs) then Some (drop (length sep) (c # cs)) else after_first sep cs)"

fun before_first :: "string \<Rightarrow> string \<Rightarrow> string" where
  "before_first sep [] = []"
| "before_first sep (c # cs) = (if prefix sep (c # cs) then [] else c # before_first sep cs)"

definition spec_clean_response :: "string \<Rightarrow> string" where
  "spec_clean_response response =
     (case after_first ''</think>'' response of
        Some rest \<Rightarrow> rest
      | None \<Rightarrow> response)"

definition spec_extract_tag_content :: "string \<Rightarrow> string \<Rightarrow> string option" where
  "spec_extract_tag_content response tag =
     (case after_first (''<'' @ tag @ ''>'') response of
        None \<Rightarrow> None
      | Some rest \<Rightarrow>
          (if sublist (''</'' @ tag @ ''>'') rest
           then Some (before_first (''</'' @ tag @ ''>'') rest)
           else None))"

definition spec_parser :: action_parser where
  "spec_parser = \<lparr>clean_response = spec_clean_response,
                   extract_tag_content = spec_extract_tag_content\<rparr>"

text \<open>
  \<open>observation_for_setup_action\<close>: the events it causes and the observation or the
  exception.
\<close>

fun observation_for_setup_action ::
  "collaborators \<Rightarrow> int \<Rightarrow> SetupAction option \<Rightarrow> event list \<times> (py_exception + SetupObservation)" where
  "observation_for_setup_action env i None =
     ([], Inr (SetupObservation
        (''Please using following format after `Action: ` to make a valid action choice:'' @
         [CHR 0x0A] @ SetupAction_doc @ [CHR 0x0A]) False))"
| "observation_for_setup_action env i (Some (SetupCommand c)) =
     ([SessionCommand c],
      (case send_command env i c of
         Inl e \<Rightarrow> Inl e
       | Inr text \<Rightarrow> Inr (SetupObservation text False)))"
| "observation_for_setup_action env i (Some (SetupSearch q)) =
     ([SearchQuery q],
      (case search_invoke env i q of
         Inl e \<Rightarrow> Inl e
       | Inr text \<Rightarrow> Inr (SetupObservation text False)))"
| "observation_for_setup_action env i (Some SetupStop) =
     ([], Inr (SetupObservation [] True))"

definition SETUP_CONVERSATION_WINDOW :: nat where
  "SETUP_CONVERSATION_WINDOW = 5"

text \<open>
  The message \<open>commands_history\<close> placed between the prefix and the window; the window
  size is formatted into it as the text \<open>5\<close>.
\<close>

definition commands_history :: "string list \<Rightarrow> message" where
  "commands_history cmds =
     HumanMessage ([CHR 0x0A] @ ''The commands you have run:```'' @ [CHR 0x0A] @
                   str_join '', '' cmds @ ''```'' @ [CHR 0x0A] @
                   ''Following are the last 5 messages:'' @ [CHR 0x0A])"

text \<open>
  The windowed prompt of the setup loop: the prefix, the message \<open>commands_history\<close>, and
  the history after the prefix or its last five messages.
\<close>

definition setup_input_messages :: "nat \<Rightarrow> message list \<Rightarrow> string list \<Rightarrow> message list" where
  "setup_input_messages prefix_messages msgs cmds =
     (if length msgs < SETUP_CONVERSATION_WINDOW + prefix_messages
      then take prefix_messages msgs
           @ [commands_history cmds]
           @ drop prefix_messages msgs
      else take prefix_messages msgs
           @ [commands_history cmds]
           @ drop (length msgs - SETUP_CONVERSATION_WINDOW) msgs)"

text \<open>
  One pass through the body of the \<open>while\<close> loop of \<open>setup\<close>. The pass starts by
  reading the clock; the subtraction of \<open>state["start_time"]\<close> raises \<open>TypeError\<close> when
  that field is \<open>None\<close>.
\<close>

definition setup_body ::
  "action_parser \<Rightarrow> collaborators \<Rightarrow> nat \<Rightarrow> real option \<Rightarrow> loop_vars \<Rightarrow> loop_vars flow" where
  "setup_body P env prefix_messages start v =
     (let v0 = v\<lparr>trace := trace v @ [ClockRead]\<rparr>
      in case start of
        None \<Rightarrow> Raise TypeError v0
      | Some t0 \<Rightarrow>
     if time_now env (step v + 1) - t0 > 30 * 60
     then Raise (TimeoutError ''Reached global timeout of 30 minutes'') v0
     else
     (let v1 = v0\<lparr>step := step v0 + 1\<rparr>;
          input_messages = setup_input_messages prefix_messages (messages v1) (commands v1);
          v2 = v1\<lparr>trace := trace v1 @ [OracleCall input_messages]\<rparr>
      in case llm_invoke env (step v1) input_messages of
           Inl e \<Rightarrow> Raise e v2
         | Inr reply \<Rightarrow>
             (let v3 = v2\<lparr>messages := messages v2 @ [AIMessage reply]\<rparr>;
                  action = parse_setup_action P reply;
                  v4 = (case action of
                          Some (SetupCommand c) \<Rightarrow> v3\<lparr>commands := commands v3 @ [c]\<rparr>
                        | _ \<Rightarrow> v3);
                  (events, result) = observation_for_setup_action env (step v1) action;
                  v5 = v4\<lparr>trace := trace v4 @ events\<rparr>
              in case result of
                   Inl e \<Rightarrow> Raise e v5
                 | Inr observation \<Rightarrow>
                     (if is_stop observation then Break v5
                      else Continue (v5\<lparr>messages := messages v5 @
                             [HumanMessage (''Observation:'' @ [CHR 0x0A] @ s_content observation)]\<rparr>)))))"

function setup_loop ::
  "action_parser \<Rightarrow> collaborators \<Rightarrow> nat \<Rightarrow> real option \<Rightarrow> int \<Rightarrow> loop_vars
     \<Rightarrow> py_exception option \<times> loop_vars" where
  "setup_loop P env prefix_messages start max_steps v =
     (if step v < max_steps
      then (case setup_body P env prefix_messages start v of
              Raise e v' \<Rightarrow> (Some e, v')
            | Break v' \<Rightarrow> (None, v')
            | Continue v' \<Rightarrow> setup_loop P env prefix_messages start max_steps v')
      else (None, v))"
  by pat_completeness auto
termination
  by (relation "measure (\<lambda>(P, env, pm, start, max_steps, v). nat (max_steps - step v))")
     (auto simp: setup_body_def Let_def
        split: sum.splits option.splits SetupAction.splits prod.splits if_splits)

declare setup_loop.simps [simp del]

record setup_return =
  s_messages :: "message list"
  s_setup_messages :: "message list"
  s_setup_commands :: "string list"
  s_commands :: "string list"

text \<open>
  The run of the function \<open>setup\<close> before the wrapper. Its first statements read the
  state and build the opening messages; there is no test of \<open>state["exception"]\<close>.
\<close>

definition setup_run ::
  "action_parser \<Rightarrow> collaborators \<Rightarrow> string \<Rightarrow> string \<Rightarrow> int \<Rightarrow> agent_state
     \<Rightarrow> (py_exception + setup_return) \<times> event list" where
  "setup_run P env sys_text task_text max_steps state =
     (let messages0 = [SystemMessage sys_text, HumanMessage task_text] @ verify_messages state;
          prefix_messages = length messages0;
          v0 = \<lparr>messages = messages0, commands = [], step = 0, trace = []\<rparr>
      in case setup_loop P env prefix_messages (start_time state) max_steps v0 of
           (Some e, v) \<Rightarrow> (Inl e, trace v)
         | (None, v) \<Rightarrow>
             (Inr \<lparr>s_messages = messages v,
                   s_setup_messages = drop prefix_messages (messages v),
                   s_setup_commands = commands v,
                   s_commands = commands v\<rparr>,
              trace v))"

text \<open>
  The decorated function \<open>setup\<close> (the name is a keyword of the theory language, hence
  the suffix).
\<close>

definition setup_stage ::
  "action_parser \<Rightarrow> collaborators \<Rightarrow> string \<Rightarrow> string \<Rightarrow> int \<Rightarrow> agent_state
     \<Rightarrow> setup_return stage_return" where
  "setup_stage P env sys_text task_text max_steps state =
     auto_catch (\<lambda>(m, s). fst (setup_run P env sys_text task_text m s)) (max_steps, state)"

section \<open>The oracle client (llm.py)\<close>

text \<open>
  Modelled from the spec: the decorator \<open>retry\<close> and its arguments \<open>stop_after_attempt\<close>
  and \<open>wait_exponential_jitter\<close> come from the package \<open>tenacity\<close>, which is missing from
  the sources; \<open>LLMProvider.invoke\<close> only passes it the constants 5, 5, 120 and 3. The
  spec says: up to 5 attempts in total, exponential backoff with jitter between attempts
  (initial delay 5, cap 120, random jitter 3), the first attempt not delayed, and failure
  with \<open>OracleUnavailable\<close> once the retries are exhausted.

  \<open>draw k\<close> is the random number in the unit interval drawn after attempt \<open>k\<close>; \<open>func k\<close>
  is the outcome of attempt \<open>k\<close>. The result carries the record of the attempts made and of
  the delays slept, in order. The wrapper \<open>logged_invoke\<close> writes a file around the call
  and is left out.
\<close>

datatype retry_event = Attempt nat | Sleep real

fun is_attempt :: "retry_event \<Rightarrow> bool" where
  "is_attempt (Attempt k) = True"
| "is_attempt (Sleep d) = False"

definition attempts :: "retry_event list \<Rightarrow> nat" where
  "attempts evs = length (filter is_attempt evs)"

definition wait_exponential_jitter :: "real \<Rightarrow> real \<Rightarrow> real \<Rightarrow> (nat \<Rightarrow> real) \<Rightarrow> nat \<Rightarrow> real" where
  "wait_exponential_jitter initial cap jitter draw k =
     min (initial * 2 ^ (k - 1) + jitter * draw k) cap"

function retry_call ::
  "nat \<Rightarrow> (nat \<Rightarrow> real) \<Rightarrow> (nat \<Rightarrow> py_exception + 'a) \<Rightarrow> nat \<Rightarrow> retry_event list
     \<Rightarrow> (py_exception + 'a) \<times> retry_event list" where
  "retry_call stop_after_attempt wait func k evs =
     (case func k of
        Inr r \<Rightarrow> (Inr r, evs @ [Attempt k])
      | Inl e \<Rightarrow>
          (if k \<ge> stop_after_attempt then (Inl OracleUnavailable, evs @ [Attempt k])
           else retry_call stop_after_attempt wait func (k + 1)
                  (evs @ [Attempt k, Sleep (wait k)])))"
  by pat_completeness auto
termination
  by (relation "measure (\<lambda>(stop_after_attempt, wait, func, k, evs). stop_after_attempt - k)")
     auto

declare retry_call.simps [simp del]

definition invoke ::
  "(nat \<Rightarrow> real) \<Rightarrow> (nat \<Rightarrow> message list \<Rightarrow> py_exception + string) \<Rightarrow> message list
     \<Rightarrow> (py_exception + string) \<times> retry_event list" where
  "invoke draw llm_instance_invoke msgs =
     retry_call 5 (wait_exponential_jitter 5 120 3 draw) (\<lambda>k. llm_instance_invoke k msgs) 1 []"

text \<open>The record of a call that succeeds at attempt \<open>n\<close> or gives up there.\<close>

definition retry_log :: "(nat \<Rightarrow> real) \<Rightarrow> nat \<Rightarrow> nat \<Rightarrow> retry_event list" where
  "retry_log wait k n = concat (map (\<lambda>j. [Attempt j, Sleep (wait j)]) [k..<n]) @ [Attempt n]"

text \<open>An oracle that fails three times and then answers; the draws are all one half.\<close>

definition flaky_oracle :: "nat \<Rightarrow> message list \<Rightarrow> py_exception + string" where
  "flaky_oracle k msgs = (if k < 4 then Inl (CollaboratorError ''rate limit'') else Inr ''hi'')"

definition half_draw :: "nat \<Rightarrow> real" where
  "half_draw k = 1 / 2"

section \<open>Concrete runs\<close>

text \<open>
  An oracle that gives the same reply at every step, a session that answers \<open>ok\<close>, a
  search tool that answers with an empty list, and a clock that stands at 0.
\<close>

definition oracle_says :: "string \<Rightarrow> collaborators" where
  "oracle_says reply =
     \<lparr>llm_invoke = (\<lambda>i p. Inr reply),
      send_command = (\<lambda>i c. Inr ''ok''),
      search_invoke = (\<lambda>i q. Inr ''[]''),
      time_now = (\<lambda>i. 0)\<rparr>"

definition fresh_state :: agent_state where
  "fresh_state = \<lparr>exception = None, verify_messages = [], start_time = Some 0, trials = 0\<rparr>"

definition opening_messages :: "message list" where
  "opening_messages = [SystemMessage ''sys'', HumanMessage ''task'']"

definition setup_vars0 :: loop_vars where
  "setup_vars0 = \<lparr>messages = opening_messages, commands = [], step = 0, trace = []\<rparr>"

definition verify_vars0 :: verify_vars where
  "verify_vars0 = \<lparr>messages = opening_messages, commands = [], step = 0, trace = [],
                    success = False, issue = None\<rparr>"

text \<open>The same collaborators with a clock that stands far beyond the 30 minutes.\<close>

definition late_clock :: "string \<Rightarrow> collaborators" where
  "late_clock reply = (oracle_says reply)\<lparr>time_now := (\<lambda>i. 10000)\<rparr>"

text \<open>A state in which an earlier stage has stored an exception.\<close>

definition failed_state :: agent_state where
  "failed_state = fresh_state\<lparr>exception := Some (CollaboratorError ''no session'')\<rparr>"

text \<open>The variables after one pass from the start, for three replies of the oracle.\<close>

definition verify_vars_after_issue :: verify_vars where
  "verify_vars_after_issue =
     verify_vars0\<lparr>messages := opening_messages @
                       [AIMessage ''<issue>none</issue>'',
                        HumanMessage (''Observation:'' @ [CHR 0x0A])],
                  step := 1,
                  trace := [OracleCall opening_messages],
                  success := True\<rparr>"

definition setup_vars_after_command :: loop_vars where
  "setup_vars_after_command =
     setup_vars0\<lparr>messages := opening_messages @
                      [AIMessage ''<command>ls</command>'',
                       HumanMessage (''Observation:'' @ [CHR 0x0A] @ ''ok'')],
                 commands := [''ls''],
                 step := 1,
                 trace := [ClockRead, OracleCall (opening_messages @ [commands_history []]),
                           SessionCommand ''ls'']\<rparr>"

definition setup_vars_after_stop :: loop_vars where
  "setup_vars_after_stop =
     setup_vars0\<lparr>messages := opening_messages @ [AIMessage ''<stop></stop>''],
                 step := 1,
                 trace := [ClockRead, OracleCall (opening_messages @ [commands_history []])]\<rparr>"

section \<open>Auxiliary lemmas\<close>

subsection \<open>Counting calls\<close>

lemma counts_simps [simp]:
  "oracle_calls [] = 0" "clock_reads [] = 0"
  "oracle_calls (x # xs) = (if is_oracle_call x then 1 else 0) + oracle_calls xs"
  "clock_reads (x # xs) = (if is_clock_read x then 1 else 0) + clock_reads xs"
  "oracle_calls (xs @ ys) = oracle_calls xs + oracle_calls ys"
  "clock_reads (xs @ ys) = clock_reads xs + clock_reads ys"
  by (simp_all add: oracle_calls_def clock_reads_def)

lemma setup_observation_events:
  assumes "observation_for_setup_action env i a = (ev, res)"
  shows "oracle_calls ev = 0 \<and> clock_reads ev = 0"
  using assms by (cases "(env, i, a)" rule: observation_for_setup_action.cases) auto

lemma verify_observation_events:
  assumes "observation_for_verify_action env i a = (ev, res)"
  shows "oracle_calls ev = 0 \<and> clock_reads ev = 0"
  using assms by (cases "(env, i, a)" rule: observation_for_verify_action.cases) auto

lemma setup_body_counts:
  assumes "setup_body P env pm start v = r" and "r = Raise e v' \<or> r = Break v' \<or> r = Continue v'"
  shows "step v \<le> step v' \<and> step v' \<le> step v + 1
       \<and> clock_reads (trace v') = clock_reads (trace v) + 1
       \<and> oracle_calls (trace v') \<le> oracle_calls (trace v) + 1"
  using assms
  by (auto simp: setup_body_def Let_def dest!: setup_observation_events
      split: sum.splits option.splits prod.splits if_splits SetupAction.splits)

lemma setup_body_continue_step:
  "setup_body P env pm start v = Continue v' \<Longrightarrow> step v' = step v + 1"
  by (auto simp: setup_body_def Let_def
      split: sum.splits option.splits prod.splits if_splits SetupAction.splits)

lemma verify_body_counts:
  assumes "verify_body env pm v = r" and "r = Raise e v' \<or> r = Break v' \<or> r = Continue v'"
  shows "step v' = step v + 1
       \<and> clock_reads (trace v') = clock_reads (trace v)
       \<and> oracle_calls (trace v') = oracle_calls (trace v) + 1"
  using assms
  by (auto simp: verify_body_def Let_def dest!: verify_observation_events
      split: sum.splits option.splits prod.splits if_splits VerifyAction.splits)

lemma setup_loop_counts:
  "setup_loop P env pm start N v = (e, v') \<Longrightarrow>
     step v \<le> step v' \<and> step v' \<le> max (step v) N
     \<and> clock_reads (trace v') \<le> clock_reads (trace v) + nat (N - step v)
     \<and> oracle_calls (trace v') \<le> oracle_calls (trace v) + nat (N - step v)"
proof (induction P env pm start N v rule: setup_loop.induct)
  case (1 P env pm start N v)
  show ?case
  proof (cases "step v < N")
    case False
    with "1.prems" show ?thesis by (simp add: setup_loop.simps)
  next
    case True
    show ?thesis
    proof (cases "setup_body P env pm start v")
      case (Raise x w)
      with True "1.prems" have "e = Some x" "v' = w" by (simp_all add: setup_loop.simps)
      with setup_body_counts[OF Raise, of x w] True show ?thesis by auto
    next
      case (Break w)
      with True "1.prems" have "v' = w" by (simp add: setup_loop.simps)
      with setup_body_counts[OF Break, of undefined w] True show ?thesis by auto
    next
      case (Continue w)
      with True "1.prems" have rec: "setup_loop P env pm start N w = (e, v')"
        by (simp add: setup_loop.simps)
      from setup_body_counts[OF Continue, of undefined w] setup_body_continue_step[OF Continue]
      have w: "step w = step v + 1" "clock_reads (trace w) = clock_reads (trace v) + 1"
        "oracle_calls (trace w) \<le> oracle_calls (trace v) + 1" by auto
      from "1.IH"[OF True Continue rec] w True show ?thesis by auto
    qed
  qed
qed

lemma verify_loop_counts:
  "verify_loop env pm N v = (e, v') \<Longrightarrow>
     step v \<le> step v' \<and> step v' \<le> max (step v) N
     \<and> oracle_calls (trace v') = oracle_calls (trace v) + nat (step v' - step v)"
proof (induction env pm N v rule: verify_loop.induct)
  case (1 env pm N v)
  show ?case
  proof (cases "step v < N")
    case False
    with "1.prems" show ?thesis by (simp add: verify_loop.simps)
  next
    case True
    show ?thesis
    proof (cases "verify_body env pm v")
      case (Raise x w)
      with True "1.prems" have "e = Some x" "v' = w" by (simp_all add: verify_loop.simps)
      with verify_body_counts[OF Raise, of x w] True show ?thesis by auto
    next
      case (Break w)
      with True "1.prems" have "v' = w" by (simp add: verify_loop.simps)
      with verify_body_counts[OF Break, of undefined w] True show ?thesis by auto
    next
      case (Continue w)
      with True "1.prems" have rec: "verify_loop env pm N w = (e, v')"
        by (simp add: verify_loop.simps)
      from verify_body_counts[OF Continue, of undefined w]
      have w: "step w = step v + 1" 
        "oracle_calls (trace w) = oracle_calls (trace v) + 1" by auto
      from "1.IH"[OF True Continue rec] w True show ?thesis by auto
    qed
  qed
qed

subsection \<open>The prompts sent to the oracle\<close>

lemma setup_observation_no_oracle:
  assumes "observation_for_setup_action env i a = (ev, res)"
  shows "OracleCall p \<notin> set ev"
  using assms by (cases "(env, i, a)" rule: observation_for_setup_action.cases) auto

lemma verify_observation_no_oracle:
  assumes "observation_for_verify_action env i a = (ev, res)"
  shows "OracleCall p \<notin> set ev"
  using assms by (cases "(env, i, a)" rule: observation_for_verify_action.cases) auto

lemma suffix_drop_drop: "i \<le> j \<Longrightarrow> suffix (drop j xs) (drop i xs)"
proof -
  assume "i \<le> j"
  then have "drop j xs = drop (j - i) (drop i xs)" by simp
  then show ?thesis by (metis suffix_drop)
qed

lemma setup_window:
  "\<exists>w. setup_input_messages pm msgs cmds = take pm msgs @ commands_history cmds # w
       \<and> length w \<le> SETUP_CONVERSATION_WINDOW \<and> suffix w (drop pm msgs)"
  by (auto simp: setup_input_messages_def SETUP_CONVERSATION_WINDOW_def intro!: suffix_drop_drop)

lemma verify_window:
  "\<exists>w. verify_input_messages pm msgs = take pm msgs @ w
       \<and> length w \<le> VERIFY_CONVERSATION_WINDOW \<and> suffix w (drop pm msgs)"
proof (cases "length msgs < VERIFY_CONVERSATION_WINDOW + pm")
  case True
  then have "verify_input_messages pm msgs = take pm msgs @ drop pm msgs"
    by (simp add: verify_input_messages_def)
  moreover from True have "length (drop pm msgs) \<le> VERIFY_CONVERSATION_WINDOW" by simp
  ultimately show ?thesis by blast
next
  case False
  then have "verify_input_messages pm msgs =
      take pm msgs @ drop (length msgs - VERIFY_CONVERSATION_WINDOW) msgs"
    by (simp add: verify_input_messages_def)
  moreover have "length (drop (length msgs - VERIFY_CONVERSATION_WINDOW) msgs)
      \<le> VERIFY_CONVERSATION_WINDOW" by simp
  moreover from False have "suffix (drop (length msgs - VERIFY_CONVERSATION_WINDOW) msgs) (drop pm msgs)"
    by (intro suffix_drop_drop) simp
  ultimately show ?thesis by blast
qed

text \<open>What one pass does to the history and to the oracle calls.\<close>

lemma setup_body_history:
  assumes "setup_body P env pm start v = r" and "r = Raise e v' \<or> r = Break v' \<or> r = Continue v'"
  shows "prefix (messages v) (messages v')"
    and "OracleCall p \<in> set (trace v') \<Longrightarrow>
           OracleCall p \<in> set (trace v) \<or> p = setup_input_messages pm (messages v) (commands v)"
  using assms
  by (auto simp: setup_body_def Let_def dest!: setup_observation_no_oracle[where p = p]
      split: sum.splits option.splits prod.splits if_splits SetupAction.splits)

lemma verify_body_history:
  assumes "verify_body env pm v = r" and "r = Raise e v' \<or> r = Break v' \<or> r = Continue v'"
  shows "prefix (messages v) (messages v')"
    and "OracleCall p \<in> set (trace v') \<Longrightarrow>
           OracleCall p \<in> set (trace v) \<or> p = verify_input_messages pm (messages v)"
  using assms
  by (auto simp: verify_body_def Let_def dest!: verify_observation_no_oracle[where p = p]
      split: sum.splits option.splits prod.splits if_splits VerifyAction.splits)


lemma window_in_later:
  assumes "suffix w (drop pm a)" and "prefix a b" and "pm \<le> length a"
  shows "sublist w (drop pm b)"
proof -
  from assms(2) obtain more where b: "b = a @ more" by (auto simp: prefix_def)
  from assms(1) obtain z where z: "drop pm a = z @ w" by (auto simp: suffix_def)
  from b assms(3) z have "drop pm b = z @ w @ more" by simp
  then show ?thesis by (simp add: sublist_def) blast
qed

lemma take_prefix_same:
  "prefix a b \<Longrightarrow> pm \<le> length a \<Longrightarrow> take pm b = take pm a"
  by (auto simp: prefix_def)

lemma setup_loop_prompts:
  assumes "setup_loop P env pm start N v = (e, v')" and "pm \<le> length (messages v)"
  shows "prefix (messages v) (messages v') \<and>
         (OracleCall p \<in> set (trace v') \<longrightarrow>
           OracleCall p \<in> set (trace v) \<or>
           (\<exists>cmds w. p = take pm (messages v) @ commands_history cmds # w
              \<and> length w \<le> SETUP_CONVERSATION_WINDOW
              \<and> sublist w (drop pm (messages v'))))"
  using assms
proof (induction P env pm start N v rule: setup_loop.induct)
  case (1 P env pm start N v)
  show ?case
  proof (cases "step v < N")
    case False
    with "1.prems" show ?thesis by (simp add: setup_loop.simps)
  next
    case True
    from setup_window[of pm "messages v" "commands v"]
    obtain w0 where w0: "setup_input_messages pm (messages v) (commands v)
          = take pm (messages v) @ commands_history (commands v) # w0"
        "length w0 \<le> SETUP_CONVERSATION_WINDOW" "suffix w0 (drop pm (messages v))"
      by blast
    have one_pass: "prefix (messages v) (messages u) \<and>
         (OracleCall p \<in> set (trace u) \<longrightarrow>
           OracleCall p \<in> set (trace v) \<or>
           (\<exists>cmds w. p = take pm (messages v) @ commands_history cmds # w
              \<and> length w \<le> SETUP_CONVERSATION_WINDOW
              \<and> sublist w (drop pm (messages u'))))"
      if body: "setup_body P env pm start v = r" "r = Raise x u \<or> r = Break u \<or> r = Continue u"
        and later: "prefix (messages u) (messages u')"
      for r x u u'
    proof -
      from setup_body_history[OF body] have pre: "prefix (messages v) (messages u)"
        and tr: "OracleCall p \<in> set (trace u) \<Longrightarrow>
           OracleCall p \<in> set (trace v) \<or> p = setup_input_messages pm (messages v) (commands v)"
        by blast+
      from pre later have "prefix (messages v) (messages u')" by (rule prefix_order.trans)
      with w0(3) "1.prems"(2) have "sublist w0 (drop pm (messages u'))"
        by (intro window_in_later)
      with pre tr w0 show ?thesis by blast
    qed
    show ?thesis
    proof (cases "setup_body P env pm start v")
      case (Raise x u)
      with True "1.prems" have "v' = u" by (simp add: setup_loop.simps)
      with one_pass[OF Raise, of x u u] show ?thesis by simp
    next
      case (Break u)
      with True "1.prems" have "v' = u" by (simp add: setup_loop.simps)
      with one_pass[OF Break, of undefined u u] show ?thesis by simp
    next
      case (Continue u)
      with True "1.prems" have rec: "setup_loop P env pm start N u = (e, v')"
        by (simp add: setup_loop.simps)
      from setup_body_history(1)[OF Continue, of undefined u]
      have pre: "prefix (messages v) (messages u)" by simp
      with "1.prems"(2) have len: "pm \<le> length (messages u)"
        by (auto simp: prefix_def)
      from pre "1.prems"(2) have tk: "take pm (messages u) = take pm (messages v)"
        by (rule take_prefix_same)
      from "1.IH"[OF True Continue rec len]
      have ih: "prefix (messages u) (messages v')"
        "OracleCall p \<in> set (trace v') \<Longrightarrow>
           OracleCall p \<in> set (trace u) \<or>
           (\<exists>cmds w. p = take pm (messages u) @ commands_history cmds # w
              \<and> length w \<le> SETUP_CONVERSATION_WINDOW
              \<and> sublist w (drop pm (messages v')))"
        by blast+
      from one_pass[OF Continue, of undefined u v'] ih(1)
      have op: "prefix (messages v) (messages u)"
         "OracleCall p \<in> set (trace u) \<Longrightarrow>
           OracleCall p \<in> set (trace v) \<or>
           (\<exists>cmds w. p = take pm (messages v) @ commands_history cmds # w
              \<and> length w \<le> SETUP_CONVERSATION_WINDOW
              \<and> sublist w (drop pm (messages v')))"
        by blast+
      from op(1) ih(1) have "prefix (messages v) (messages v')" by (rule prefix_order.trans)
      moreover from ih(2) op(2) tk have "OracleCall p \<in> set (trace v') \<longrightarrow>
           OracleCall p \<in> set (trace v) \<or>
           (\<exists>cmds w. p = take pm (messages v) @ commands_history cmds # w
              \<and> length w \<le> SETUP_CONVERSATION_WINDOW
              \<and> sublist w (drop pm (messages v')))"
        by metis
      ultimately show ?thesis by blast
    qed
  qed
qed


lemma verify_loop_prompts:
  assumes "verify_loop env pm N v = (e, v')" and "pm \<le> length (messages v)"
  shows "prefix (messages v) (messages v') \<and>
         (OracleCall p \<in> set (trace v') \<longrightarrow>
           OracleCall p \<in> set (trace v) \<or>
           (\<exists>w. p = take pm (messages v) @ w
              \<and> length w \<le> VERIFY_CONVERSATION_WINDOW
              \<and> sublist w (drop pm (messages v'))))"
  using assms
proof (induction env pm N v rule: verify_loop.induct)
  case (1 env pm N v)
  show ?case
  proof (cases "step v < N")
    case False
    with "1.prems" show ?thesis by (simp add: verify_loop.simps)
  next
    case True
    from verify_window[of pm "messages v"]
    obtain w0 where w0: "verify_input_messages pm (messages v) = take pm (messages v) @ w0"
        "length w0 \<le> VERIFY_CONVERSATION_WINDOW" "suffix w0 (drop pm (messages v))"
      by blast
    have one_pass: "prefix (messages v) (messages u) \<and>
         (OracleCall p \<in> set (trace u) \<longrightarrow>
           OracleCall p \<in> set (trace v) \<or>
           (\<exists>w. p = take pm (messages v) @ w
              \<and> length w \<le> VERIFY_CONVERSATION_WINDOW
              \<and> sublist w (drop pm (messages u'))))"
      if body: "verify_body env pm v = r" "r = Raise x u \<or> r = Break u \<or> r = Continue u"
        and later: "prefix (messages u) (messages u')"
      for r x u u'
    proof -
      from verify_body_history[OF body] have pre: "prefix (messages v) (messages u)"
        and tr: "OracleCall p \<in> set (trace u) \<Longrightarrow>
           OracleCall p \<in> set (trace v) \<or> p = verify_input_messages pm (messages v)"
        by blast+
      from pre later have "prefix (messages v) (messages u')" by (rule prefix_order.trans)
      with w0(3) "1.prems"(2) have "sublist w0 (drop pm (messages u'))"
        by (intro window_in_later)
      with pre tr w0 show ?thesis by blast
    qed
    show ?thesis
    proof (cases "verify_body env pm v")
      case (Raise x u)
      with True "1.prems" have "v' = u" by (simp add: verify_loop.simps)
      with one_pass[OF Raise, of x u u] show ?thesis by simp
    next
      case (Break u)
      with True "1.prems" have "v' = u" by (simp add: verify_loop.simps)
      with one_pass[OF Break, of undefined u u] show ?thesis by simp
    next
      case (Continue u)
      with True "1.prems" have rec: "verify_loop env pm N u = (e, v')"
        by (simp add: verify_loop.simps)
      from verify_body_history(1)[OF Continue, of undefined u]
      have pre: "prefix (messages v) (messages u)" by simp
      with "1.prems"(2) have len: "pm \<le> length (messages u)"
        by (auto simp: prefix_def)
      from pre "1.prems"(2) have tk: "take pm (messages u) = take pm (messages v)"
        by (rule take_prefix_same)
      from "1.IH"[OF True Continue rec len]
      have ih: "prefix (messages u) (messages v')"
        "OracleCall p \<in> set (trace v') \<Longrightarrow>
           OracleCall p \<in> set (trace u) \<or>
           (\<exists>w. p = take pm (messages u) @ w
              \<and> length w \<le> VERIFY_CONVERSATION_WINDOW
              \<and> sublist w (drop pm (messages v')))"
        by blast+
      from one_pass[OF Continue, of undefined u v'] ih(1)
      have op: "prefix (messages v) (messages u)"
         "OracleCall p \<in> set (trace u) \<Longrightarrow>
           OracleCall p \<in> set (trace v) \<or>
           (\<exists>w. p = take pm (messages v) @ w
              \<and> length w \<le> VERIFY_CONVERSATION_WINDOW
              \<and> sublist w (drop pm (messages v')))"
        by blast+
      from op(1) ih(1) have "prefix (messages v) (messages v')" by (rule prefix_order.trans)
      moreover from ih(2) op(2) tk have "OracleCall p \<in> set (trace v') \<longrightarrow>
           OracleCall p \<in> set (trace v) \<or>
           (\<exists>w. p = take pm (messages v) @ w
              \<and> length w \<le> VERIFY_CONVERSATION_WINDOW
              \<and> sublist w (drop pm (messages v')))"
        by metis
      ultimately show ?thesis by blast
    qed
  qed
qed

subsection \<open>The verify loop and the clock\<close>

lemma verify_observation_clock_free:
  "observation_for_verify_action (env\<lparr>time_now := f\<rparr>) i a = observation_for_verify_action env i a"
  by (cases "(env, i, a)" rule: observation_for_verify_action.cases) auto

lemma verify_body_clock_free:
  "verify_body (env\<lparr>time_now := f\<rparr>) pm v = verify_body env pm v"
  by (simp add: verify_body_def Let_def verify_observation_clock_free
        cong: sum.case_cong option.case_cong)

lemma verify_loop_clock_free:
  "verify_loop (env\<lparr>time_now := f\<rparr>) pm N v = verify_loop env pm N v"
proof (induction env pm N v rule: verify_loop.induct)
  case (1 env pm N v)
  show ?case
  proof (cases "step v < N")
    case False
    then show ?thesis by (simp add: verify_loop.simps)
  next
    case True
    show ?thesis
    proof (cases "verify_body env pm v")
      case (Raise x u)
      with True show ?thesis by (simp add: verify_loop.simps verify_body_clock_free)
    next
      case (Break u)
      with True show ?thesis by (simp add: verify_loop.simps verify_body_clock_free)
    next
      case (Continue u)
      from "1.IH"[OF True Continue] True Continue show ?thesis
        by (simp add: verify_loop.simps[of env] verify_loop.simps[of "env\<lparr>time_now := f\<rparr>"]
              verify_body_clock_free)
    qed
  qed
qed

subsection \<open>The retried call\<close>

lemma retry_call_shape:
  "retry_call m wait func k evs = (res, evs') \<Longrightarrow>
     \<exists>n. k \<le> n \<and> n \<le> max k m
       \<and> evs' = evs @ retry_log wait k n
       \<and> (\<forall>j. k \<le> j \<and> j < n \<longrightarrow> isl (func j))
       \<and> (case res of Inr r \<Rightarrow> func n = Inr r
                      | Inl e \<Rightarrow> e = OracleUnavailable \<and> isl (func n) \<and> m \<le> n)"
proof (induction m wait func k evs rule: retry_call.induct)
  case (1 m wait func k evs)
  show ?case
  proof (cases "func k")
    case (Inr r)
    with "1.prems" have "res = Inr r" "evs' = evs @ [Attempt k]"
      by (simp_all add: retry_call.simps)
    with Inr show ?thesis
      by (intro exI[of _ k]) (auto simp: retry_log_def)
  next
    case (Inl e)
    show ?thesis
    proof (cases "k \<ge> m")
      case True
      with Inl "1.prems" have "res = Inl OracleUnavailable" "evs' = evs @ [Attempt k]"
        by (simp_all add: retry_call.simps)
      with Inl True show ?thesis
        by (intro exI[of _ k]) (auto simp: retry_log_def)
    next
      case False
      with Inl "1.prems"
      have rec: "retry_call m wait func (k + 1) (evs @ [Attempt k, Sleep (wait k)]) = (res, evs')"
        by (simp add: retry_call.simps)
      from "1.IH"[OF Inl False rec] obtain n where n:
        "k + 1 \<le> n" "n \<le> max (k + 1) m"
        "evs' = (evs @ [Attempt k, Sleep (wait k)]) @ retry_log wait (k + 1) n"
        "\<forall>j. k + 1 \<le> j \<and> j < n \<longrightarrow> isl (func j)"
        "case res of Inr r \<Rightarrow> func n = Inr r
                      | Inl e \<Rightarrow> e = OracleUnavailable \<and> isl (func n) \<and> m \<le> n"
        by blast
      from n(1) have "[k..<n] = k # [k + 1..<n]" by (simp add: upt_conv_Cons)
      then have "retry_log wait k n = [Attempt k, Sleep (wait k)] @ retry_log wait (k + 1) n"
        by (simp add: retry_log_def)
      with n(3) have l: "evs' = evs @ retry_log wait k n" by simp
      have f: "\<forall>j. k \<le> j \<and> j < n \<longrightarrow> isl (func j)"
      proof (intro allI impI)
        fix j assume "k \<le> j \<and> j < n"
        then have "j = k \<or> (k + 1 \<le> j \<and> j < n)" by auto
        with n(4) Inl show "isl (func j)" by auto
      qed
      from n(1,2) False have "k \<le> n" "n \<le> max k m" by auto
      with l f n(5) show ?thesis by blast
    qed
  qed
qed

lemma wait_bounds:
  assumes "0 \<le> draw k" and "draw k \<le> 1"
  shows "5 \<le> wait_exponential_jitter 5 120 3 draw k"
    and "wait_exponential_jitter 5 120 3 draw k \<le> 120"
proof -
  have "(1::real) \<le> 2 ^ (k - 1)" by simp
  then have "(5::real) \<le> 5 * 2 ^ (k - 1)" by simp
  moreover from assms have "0 \<le> 3 * draw k" by simp
  ultimately have "(5::real) \<le> 5 * 2 ^ (k - 1) + 3 * draw k" by linarith
  then show "5 \<le> wait_exponential_jitter 5 120 3 draw k"
    by (simp add: wait_exponential_jitter_def)
  show "wait_exponential_jitter 5 120 3 draw k \<le> 120"
    by (simp add: wait_exponential_jitter_def)
qed

lemma attempts_retry_log: "k \<le> n \<Longrightarrow> attempts (retry_log wait k n) = n - k + 1"
proof (induction "n - k" arbitrary: k)
  case 0
  then show ?case by (simp add: retry_log_def attempts_def)
next
  case (Suc d)
  then have "[k..<n] = k # [k + 1..<n]" by (simp add: upt_conv_Cons)
  then have "retry_log wait k n = [Attempt k, Sleep (wait k)] @ retry_log wait (k + 1) n"
    by (simp add: retry_log_def)
  moreover from Suc have "attempts (retry_log wait (k + 1) n) = n - (k + 1) + 1"
    by (intro Suc.hyps) auto
  ultimately show ?case using Suc by (simp add: attempts_def)
qed

lemma sleeps_retry_log:
  "Sleep d \<in> set (retry_log wait k n) \<Longrightarrow> \<exists>j. k \<le> j \<and> j < n \<and> d = wait j"
  by (auto simp: retry_log_def)

subsection \<open>Splitting at the first occurrence of a tag\<close>

lemma str_split_nonempty: "str_split sep s \<noteq> []"
  by (induction sep s rule: str_split.induct) (auto split: list.splits)

lemma str_split_length:
  "sep \<noteq> [] \<Longrightarrow> sublist sep s \<Longrightarrow> 2 \<le> length (str_split sep s)"
proof (induction sep s rule: str_split.induct)
  case (1 sep)
  then show ?case by simp
next
  case (2 sep c cs)
  show ?case
  proof (cases "prefix sep (c # cs)")
    case True
    with "2.prems" str_split_nonempty[of sep "drop (length sep) (c # cs)"] show ?thesis
      by (cases "str_split sep (drop (length sep) (c # cs))") auto
  next
    case False
    with "2.prems" have "sublist sep cs" by (simp add: sublist_Cons_right)
    with "2.IH"(2) "2.prems" False have "2 \<le> length (str_split sep cs)" by simp
    with False show ?thesis by (auto split: list.splits)
  qed
qed

lemma prefix_within:
  assumes "prefix sep (a @ b)" and "length sep \<le> length a + m"
  shows "prefix sep (a @ take m b)"
proof -
  from assms(1) have "sep = take (length sep) (a @ b)"
    by (metis append_eq_conv_conj prefix_def)
  also from assms(2) have "\<dots> = take (length sep) (take (length a + m) (a @ b))"
    by (simp only: take_take min.absorb1)
  also have "take (length a + m) (a @ b) = a @ take m b" by simp
  finally have "sep = take (length sep) (a @ take m b)" .
  then show ?thesis by (metis take_is_prefix)
qed

lemma prefix_reaches:
  assumes "prefix sep (a @ b)" and "a \<noteq> []"
  shows "prefix sep (a @ take (length sep - 1) b)"
proof -
  from assms(2) have "length sep \<le> length a + (length sep - 1)" by (cases a) auto
  with assms(1) show ?thesis by (rule prefix_within)
qed




text \<open>
  A tag whose first character does not occur again in it cannot lie across the point
  where that character stands.
\<close>

lemma sublist_across:
  assumes "sublist (c # s) (xs @ c # ys)" and "c \<notin> set s"
  shows "sublist (c # s) xs \<or> sublist (c # s) (c # ys)"
proof -
  from assms(1) consider "sublist (c # s) xs" | "sublist (c # s) (c # ys)"
    | xs1 xs2 where "c # s = xs1 @ xs2" "suffix xs1 xs" "prefix xs2 (c # ys)"
    by (auto simp: sublist_append)
  then show ?thesis
  proof cases
    case 3
    show ?thesis
    proof (cases xs1)
      case Nil
      with 3 show ?thesis by auto
    next
      case (Cons y ys1)
      with 3(1) have s: "s = ys1 @ xs2" by simp
      show ?thesis
      proof (cases xs2)
        case Nil
        with 3(1) have "xs1 = c # s" by simp
        with 3(2) have "suffix (c # s) xs" by simp
        then show ?thesis by (auto simp: suffix_def)
      next
        case (Cons z zs)
        with 3(3) have "z = c" by simp
        with Cons s assms(2) show ?thesis by simp
      qed
    qed
  qed auto
qed


text \<open>The verify parser on replies with its tags.\<close>

lemma index_split_1:
  "sep \<noteq> [] \<Longrightarrow> sublist sep s \<Longrightarrow>
     index (str_split sep s) (Suc 0) = Inr (str_split sep s ! Suc 0)"
  using str_split_length[of sep s] by (simp add: index_def)

lemma index_split_0: "index (str_split sep s) 0 = Inr (str_split sep s ! 0)"
  using str_split_nonempty[of sep s] by (simp add: index_def)

lemma parse_verify_command:
  "sublist ''<command>'' r \<Longrightarrow> \<exists>c. parse_verify_action r = Inr (Some (VerifyCommand c))"
  by (simp add: parse_verify_action_def index_split_1 index_split_0)

lemma parse_verify_issue:
  "\<not> sublist ''<command>'' r \<Longrightarrow> sublist ''<issue>'' r \<Longrightarrow>
     \<exists>a. parse_verify_action r = Inr (Some (VerifyIssue a))"
  by (simp add: parse_verify_action_def index_split_1 index_split_0)



text \<open>The helpers modelled for the setup parser, at the first occurrence of a tag.\<close>

lemma after_first_none: "sep \<noteq> [] \<Longrightarrow> \<not> sublist sep s \<Longrightarrow> after_first sep s = None"
  by (induction s) (auto simp: sublist_Cons_right)

lemma after_first_first:
  assumes "sep \<noteq> []" and "\<not> sublist sep (pre @ butlast sep)"
  shows "after_first sep (pre @ sep @ rest) = Some rest"
  using assms
proof (induction pre)
  case Nil
  then show ?case by (cases sep) auto
next
  case (Cons x pre)
  have np: "\<not> prefix sep (x # pre @ sep @ rest)"
  proof
    assume "prefix sep (x # pre @ sep @ rest)"
    then have "prefix sep ((x # pre) @ sep @ rest)" by simp
    then have "prefix sep ((x # pre) @ take (length sep - 1) (sep @ rest))"
      by (rule prefix_reaches) simp
    then have "prefix sep ((x # pre) @ butlast sep)" by (simp add: butlast_conv_take)
    with Cons.prems(2) show False by auto
  qed
  from Cons.prems(2) have "\<not> sublist sep (pre @ butlast sep)"
    by (auto simp: sublist_Cons_right)
  with Cons.IH Cons.prems(1) have "after_first sep (pre @ sep @ rest) = Some rest" by simp
  with np show ?case by simp
qed

lemma before_first_first:
  assumes "sep \<noteq> []" and "\<not> sublist sep (pre @ butlast sep)"
  shows "before_first sep (pre @ sep @ rest) = pre"
  using assms
proof (induction pre)
  case Nil
  then show ?case by (cases sep) auto
next
  case (Cons x pre)
  have np: "\<not> prefix sep (x # pre @ sep @ rest)"
  proof
    assume "prefix sep (x # pre @ sep @ rest)"
    then have "prefix sep ((x # pre) @ sep @ rest)" by simp
    then have "prefix sep ((x # pre) @ take (length sep - 1) (sep @ rest))"
      by (rule prefix_reaches) simp
    then have "prefix sep ((x # pre) @ butlast sep)" by (simp add: butlast_conv_take)
    with Cons.prems(2) show False by auto
  qed
  from Cons.prems(2) have "\<not> sublist sep (pre @ butlast sep)"
    by (auto simp: sublist_Cons_right)
  with Cons.IH Cons.prems(1) have "before_first sep (pre @ sep @ rest) = pre" by simp
  with np show ?case by simp
qed

lemma spec_extract_command:
  assumes r: "r = pre @ ''<command>'' @ c @ ''</command>'' @ post"
    and np: "\<not> sublist ''<command>'' pre"
    and nc: "\<not> sublist ''</command>'' c"
  shows "spec_extract_tag_content r ''command'' = Some c"
proof -
  have "\<not> sublist ''<command>'' (pre @ ''<command'')"
  proof
    assume "sublist ''<command>'' (pre @ ''<command'')"
    then have "sublist ''<command>'' pre \<or> sublist ''<command>'' ''<command''"
      by (intro sublist_across) simp_all
    with np show False by (auto dest: sublist_length_le)
  qed
  then have "\<not> sublist ''<command>'' (pre @ butlast ''<command>'')" by simp
  then have a: "after_first ''<command>'' r = Some (c @ ''</command>'' @ post)"
    unfolding r by (intro after_first_first) simp_all
  have "\<not> sublist ''</command>'' (c @ ''</command'')"
  proof
    assume "sublist ''</command>'' (c @ ''</command'')"
    then have "sublist ''</command>'' c \<or> sublist ''</command>'' ''</command''"
      by (intro sublist_across) simp_all
    with nc show False by (auto dest: sublist_length_le)
  qed
  then have "\<not> sublist ''</command>'' (c @ butlast ''</command>'')" by simp
  then have b: "before_first ''</command>'' (c @ ''</command>'' @ post) = c"
    by (intro before_first_first) simp_all
  have s: "sublist ''</command>'' (c @ ''</command>'' @ post)" by (rule sublist_appendI)
  from a b s show ?thesis by (simp add: spec_extract_tag_content_def)
qed

subsection \<open>One pass on particular replies\<close>


lemma setup_body_reprompts:
  assumes "start = Some t0" and "\<not> time_now env (step v + 1) - t0 > 30 * 60"
    and "llm_invoke env (step v + 1) (setup_input_messages pm (messages v) (commands v)) = Inr r"
    and "parse_setup_action P r = None"
  shows "setup_body P env pm start v =
     Continue (v\<lparr>step := step v + 1,
                 trace := trace v @ [ClockRead,
                    OracleCall (setup_input_messages pm (messages v) (commands v))],
                 messages := messages v @ [AIMessage r,
                    HumanMessage (''Observation:'' @ [CHR 0x0A] @
                      ''Please using following format after `Action: ` to make a valid action choice:'' @
                      [CHR 0x0A] @ SetupAction_doc @ [CHR 0x0A])]\<rparr>)"
  using assms by (simp add: setup_body_def Let_def)

subsection \<open>An oracle that always replies with a command\<close>

lemma setup_body_command:
  assumes "llm_invoke env (step v + 1) (setup_input_messages pm (messages v) (commands v)) = Inr r"
    and "parse_setup_action P r = Some (SetupCommand c)"
    and "send_command env (step v + 1) c = Inr t"
    and "\<not> time_now env (step v + 1) - t0 > 30 * 60"
  shows "\<exists>u. setup_body P env pm (Some t0) v = Continue u \<and> step u = step v + 1
           \<and> commands u = commands v @ [c]"
  using assms by (simp add: setup_body_def Let_def)

lemma setup_loop_all_commands:
  assumes cmd: "\<forall>i p. \<exists>r c t. llm_invoke env i p = Inr r
                  \<and> parse_setup_action P r = Some (SetupCommand c)
                  \<and> send_command env i c = Inr t"
    and time: "\<forall>i. time_now env i - t0 \<le> 30 * 60"
  shows "fst (setup_loop P env pm (Some t0) N v) = None
       \<and> step (snd (setup_loop P env pm (Some t0) N v)) = max (step v) N
       \<and> length (commands (snd (setup_loop P env pm (Some t0) N v)))
           = length (commands v) + nat (N - step v)"
  using assms
proof (induction P env pm "Some t0" N v rule: setup_loop.induct)
  case (1 P env pm N v)
  note cmd = "1.prems"(1) and time = "1.prems"(2)
  show ?case
  proof (cases "step v < N")
    case False
    then show ?thesis by (simp add: setup_loop.simps)
  next
    case True
    from cmd obtain r c t where
      "llm_invoke env (step v + 1) (setup_input_messages pm (messages v) (commands v)) = Inr r"
      "parse_setup_action P r = Some (SetupCommand c)"
      "send_command env (step v + 1) c = Inr t"
      by blast
    moreover from time have "\<not> time_now env (step v + 1) - t0 > 30 * 60"
      by (simp add: not_less)
    ultimately obtain u where u: "setup_body P env pm (Some t0) v = Continue u"
      "step u = step v + 1" "commands u = commands v @ [c]"
      using setup_body_command by blast
    from True u(1) have "setup_loop P env pm (Some t0) N v = setup_loop P env pm (Some t0) N u"
      by (simp add: setup_loop.simps[of P env pm "Some t0" N v])
    with "1.hyps"[OF True u(1) cmd time] u(2,3) True show ?thesis by auto
  qed
qed

section \<open>Verified properties\<close>

text \<open>
  C1. The claim: an issue reply ends the verify loop on that step, with success and a null
  issue for the text \<open>none\<close> and with failure and the text as the issue for any other text.
  The code does not do this for an empty issue text: \<open>observation_for_verify_action\<close>
  builds the observation for it with \<open>success=False\<close>, the loop reads success off the
  empty content. On the reply \<open><issue></issue>\<close> the stage returns success \<open>True\<close> and no
  issue.
\<close>

theorem C1_empty_issue_returns_success:
  "verify (oracle_says ''<issue></issue>'') ''sys'' ''task'' 3 fresh_state =
     Returned \<lparr>r_messages = opening_messages @ [AIMessage ''<issue></issue>'',
                                        HumanMessage (''Observation:'' @ [CHR 0x0A])],
               r_verify_messages = [AIMessage ''<issue></issue>'',
                                    HumanMessage (''Observation:'' @ [CHR 0x0A])],
               r_test_commands = [], r_commands = [], r_trials = 1,
               r_success = True, r_issue = None\<rparr>
   \<and> parse_verify_action ''<issue></issue>'' = Inr (Some (VerifyIssue []))"
  by code_simp

text \<open>
  C2. For every maximum step count \<open>N\<close>, neither loop runs more than \<open>N\<close> passes of its
  body. A pass of the setup loop starts with one reading of the clock and a pass of the
  verify loop with one call of the oracle, so the passes are counted by these events;
  the step counter never exceeds \<open>N\<close> (or its starting value). When every reply of the
  oracle parses as a command, the session answers and the clock stays within the 30
  minutes, the setup loop ends without exception after exactly \<open>N\<close> steps with one
  recorded command per step; with budget 3 and the reply \<open><command>ls</command>\<close> it
  ends after 3 steps with 3 commands.
\<close>

theorem C2_loops_stay_within_step_budget:
  "step (snd (setup_loop P env pm start N v)) \<le> max (step v) N
   \<and> clock_reads (trace (snd (setup_loop P env pm start N v)))
        \<le> clock_reads (trace v) + nat (N - step v)
   \<and> oracle_calls (trace (snd (setup_loop P env pm start N v)))
        \<le> oracle_calls (trace v) + nat (N - step v)
   \<and> step (snd (verify_loop env' pm' N' v2)) \<le> max (step v2) N'
   \<and> oracle_calls (trace (snd (verify_loop env' pm' N' v2)))
        \<le> oracle_calls (trace v2) + nat (N' - step v2)
   \<and> ((\<forall>i p. \<exists>r c t. llm_invoke env i p = Inr r
                  \<and> parse_setup_action P r = Some (SetupCommand c)
                  \<and> send_command env i c = Inr t)
        \<and> (\<forall>i. time_now env i - t0 \<le> 30 * 60) \<longrightarrow>
        fst (setup_loop P env pm (Some t0) N v) = None
        \<and> step (snd (setup_loop P env pm (Some t0) N v)) = max (step v) N
        \<and> length (commands (snd (setup_loop P env pm (Some t0) N v)))
            = length (commands v) + nat (N - step v))
   \<and> commands (snd (setup_loop spec_parser (oracle_says ''<command>ls</command>'') 2 (Some 0) 3
               setup_vars0)) = [''ls'', ''ls'', ''ls'']
   \<and> (case setup_stage spec_parser (oracle_says ''<command>ls</command>'') ''sys'' ''task'' 3
               fresh_state of
         Returned r \<Rightarrow> s_setup_commands r = [''ls'', ''ls'', ''ls'']
       | ExceptionDict e \<Rightarrow> False)"
proof -
  obtain e u where s: "setup_loop P env pm start N v = (e, u)"
    by (cases "setup_loop P env pm start N v")
  obtain e' u' where w: "verify_loop env' pm' N' v2 = (e', u')"
    by (cases "verify_loop env' pm' N' v2")
  from setup_loop_counts[OF s] s
  have a: "step (snd (setup_loop P env pm start N v)) \<le> max (step v) N
   \<and> clock_reads (trace (snd (setup_loop P env pm start N v)))
        \<le> clock_reads (trace v) + nat (N - step v)
   \<and> oracle_calls (trace (snd (setup_loop P env pm start N v)))
        \<le> oracle_calls (trace v) + nat (N - step v)"
    by simp
  from verify_loop_counts[OF w] w
  have b: "step (snd (verify_loop env' pm' N' v2)) \<le> max (step v2) N'
   \<and> oracle_calls (trace (snd (verify_loop env' pm' N' v2)))
        \<le> oracle_calls (trace v2) + nat (N' - step v2)"
    by auto
  have c: "(\<forall>i p. \<exists>r c t. llm_invoke env i p = Inr r
                  \<and> parse_setup_action P r = Some (SetupCommand c)
                  \<and> send_command env i c = Inr t)
        \<and> (\<forall>i. time_now env i - t0 \<le> 30 * 60) \<longrightarrow>
        fst (setup_loop P env pm (Some t0) N v) = None
        \<and> step (snd (setup_loop P env pm (Some t0) N v)) = max (step v) N
        \<and> length (commands (snd (setup_loop P env pm (Some t0) N v)))
            = length (commands v) + nat (N - step v)"
    using setup_loop_all_commands[of env P t0 pm N v] by blast
  have d: "commands (snd (setup_loop spec_parser (oracle_says ''<command>ls</command>'') 2 (Some 0) 3
               setup_vars0)) = [''ls'', ''ls'', ''ls'']"
    by code_simp
  have f: "(case setup_stage spec_parser (oracle_says ''<command>ls</command>'') ''sys'' ''task'' 3
               fresh_state of
         Returned r \<Rightarrow> s_setup_commands r = [''ls'', ''ls'', ''ls'']
       | ExceptionDict e \<Rightarrow> False)"
    by code_simp
  show ?thesis by (intro conjI a[THEN conjunct1] a[THEN conjunct2, THEN conjunct1]
      a[THEN conjunct2, THEN conjunct2] b[THEN conjunct1] b[THEN conjunct2] c d f)
qed

theorem C2_step_budget_witness:
  "(\<forall>i p. \<exists>r c t. llm_invoke (oracle_says ''<command>ls</command>'') i p = Inr r
                  \<and> parse_setup_action spec_parser r = Some (SetupCommand c)
                  \<and> send_command (oracle_says ''<command>ls</command>'') i c = Inr t)
   \<and> (\<forall>i. time_now (oracle_says ''<command>ls</command>'') i - 0 \<le> 30 * 60)
   \<and> fst (setup_loop spec_parser (oracle_says ''<command>ls</command>'') 2 (Some 0) 3 setup_vars0) = None
   \<and> step (snd (setup_loop spec_parser (oracle_says ''<command>ls</command>'') 2 (Some 0) 3 setup_vars0)) = 3
   \<and> length (commands (snd (setup_loop spec_parser (oracle_says ''<command>ls</command>'') 2 (Some 0) 3 setup_vars0)))
        = 3"
proof -
  have p: "parse_setup_action spec_parser ''<command>ls</command>'' = Some (SetupCommand ''ls'')"
    by code_simp
  have h1: "\<forall>i p. \<exists>r c t. llm_invoke (oracle_says ''<command>ls</command>'') i p = Inr r
                  \<and> parse_setup_action spec_parser r = Some (SetupCommand c)
                  \<and> send_command (oracle_says ''<command>ls</command>'') i c = Inr t"
    using p by (simp add: oracle_says_def)
  have h2: "\<forall>i. time_now (oracle_says ''<command>ls</command>'') i - 0 \<le> 30 * 60"
    by (simp add: oracle_says_def)
  have v: "step setup_vars0 = 0" "commands setup_vars0 = []"
    by (simp_all add: setup_vars0_def)
  from h1 h2 have h: "(\<forall>i p. \<exists>r c t. llm_invoke (oracle_says ''<command>ls</command>'') i p = Inr r
                  \<and> parse_setup_action spec_parser r = Some (SetupCommand c)
                  \<and> send_command (oracle_says ''<command>ls</command>'') i c = Inr t)
        \<and> (\<forall>i. time_now (oracle_says ''<command>ls</command>'') i - 0 \<le> 30 * 60)"
    by (rule conjI)
  have "fst (setup_loop spec_parser (oracle_says ''<command>ls</command>'') 2 (Some 0) 3 setup_vars0) = None
        \<and> step (snd (setup_loop spec_parser (oracle_says ''<command>ls</command>'') 2 (Some 0) 3 setup_vars0))
            = max (step setup_vars0) 3
        \<and> length (commands (snd (setup_loop spec_parser (oracle_says ''<command>ls</command>'') 2 (Some 0) 3
            setup_vars0)))
            = length (commands setup_vars0) + nat (3 - step setup_vars0)"
    by (rule C2_loops_stay_within_step_budget
          [THEN conjunct2, THEN conjunct2, THEN conjunct2, THEN conjunct2, THEN conjunct2,
           THEN conjunct1, rule_format, OF h])
  then have "fst (setup_loop spec_parser (oracle_says ''<command>ls</command>'') 2 (Some 0) 3 setup_vars0) = None
   \<and> step (snd (setup_loop spec_parser (oracle_says ''<command>ls</command>'') 2 (Some 0) 3 setup_vars0)) = 3
   \<and> length (commands (snd (setup_loop spec_parser (oracle_says ''<command>ls</command>'') 2 (Some 0) 3 setup_vars0)))
        = 3"
    unfolding v by simp
  with h1 h2 show ?thesis by (intro conjI) blast+
qed

text \<open>
  The claim C3 as stated, for both loops, fails on the verify loop, which never reads
  the clock: with the clock far beyond the 30 minutes the oracle is still called and the
  stage returns its verdict.
\<close>

theorem C3_verify_calls_oracle_after_budget:
  "start_time fresh_state = Some 0
   \<and> 30 * 60 < time_now (late_clock ''<issue>none</issue>'') 1 - 0
   \<and> snd (verify_run (late_clock ''<issue>none</issue>'') ''sys'' ''task'' 3 fresh_state)
       = [OracleCall opening_messages]
   \<and> verify (late_clock ''<issue>none</issue>'') ''sys'' ''task'' 3 fresh_state =
       Returned \<lparr>r_messages = opening_messages @ [AIMessage ''<issue>none</issue>'',
                                        HumanMessage (''Observation:'' @ [CHR 0x0A])],
               r_verify_messages = [AIMessage ''<issue>none</issue>'',
                                    HumanMessage (''Observation:'' @ [CHR 0x0A])],
               r_test_commands = [], r_commands = [], r_trials = 1,
               r_success = True, r_issue = None\<rparr>"
  by code_simp

text \<open>
  C3 (amended). In every pass of the setup loop, if the time elapsed since
  \<open>state["start_time"]\<close> exceeds 30 minutes, \<open>TimeoutError\<close> is raised before the oracle
  is called: the pass only reads the clock, whatever the number of steps already taken.
  The verify loop has no such test: its result does not depend on the clock.
\<close>

theorem C3_setup_timeout_precedes_oracle:
  assumes "step v < N" and "start = Some t0" and "time_now env (step v + 1) - t0 > 30 * 60"
  shows "setup_loop P env pm start N v =
           (Some (TimeoutError ''Reached global timeout of 30 minutes''),
            v\<lparr>trace := trace v @ [ClockRead]\<rparr>)
         \<and> verify_loop (env'\<lparr>time_now := f\<rparr>) pm' N' w = verify_loop env' pm' N' w"
  using assms
  by (simp add: setup_loop.simps setup_body_def verify_loop_clock_free)

theorem C3_setup_timeout_witness:
  "step setup_vars0 < 3
   \<and> 30 * 60 < time_now (late_clock ''<command>ls</command>'') (step setup_vars0 + 1) - 0
   \<and> setup_loop spec_parser (late_clock ''<command>ls</command>'') 2 (Some 0) 3 setup_vars0 =
           (Some (TimeoutError ''Reached global timeout of 30 minutes''),
            setup_vars0\<lparr>trace := trace setup_vars0 @ [ClockRead]\<rparr>)
   \<and> verify_loop ((oracle_says ''<issue>none</issue>'')\<lparr>time_now := (\<lambda>i. 10000)\<rparr>) 2 3 verify_vars0
       = verify_loop (oracle_says ''<issue>none</issue>'') 2 3 verify_vars0"
proof -
  have a: "step setup_vars0 < 3" by (simp add: setup_vars0_def)
  have b: "30 * 60 < time_now (late_clock ''<command>ls</command>'') (step setup_vars0 + 1) - 0"
    by (simp add: late_clock_def oracle_says_def)
  from C3_setup_timeout_precedes_oracle[OF a refl b] a b show ?thesis by simp
qed

text \<open>
  C4. The claim: a reply without any recognised tag does not end either loop. The verify
  loop ends on it: the parser returns \<open>None\<close>, and the next statement reads
  \<open>action.action\<close>, which raises \<open>AttributeError\<close>; the wrapper returns it as the
  stage's exception. The branch of \<open>observation_for_verify_action\<close> for \<open>None\<close> is never
  reached.
\<close>

theorem C4_verify_unparseable_raises:
  "parse_verify_action ''hello'' = Inr None
   \<and> verify (oracle_says ''hello'') ''sys'' ''task'' 3 fresh_state = ExceptionDict AttributeError
   \<and> snd (verify_run (oracle_says ''hello'') ''sys'' ''task'' 3 fresh_state) = [OracleCall opening_messages]"
  by code_simp

text \<open>
  C5. Every prompt sent to the oracle starts with the full prefix (the messages built
  before the loop starts); what follows is, in the setup loop, the message
  \<open>commands_history\<close> and at most 5 messages, in the verify loop at most 10 messages,
  and these messages are a stretch of the history after the prefix.
\<close>

theorem C5_prompt_keeps_prefix_and_bounded_window:
  "SETUP_CONVERSATION_WINDOW = 5 \<and> VERIFY_CONVERSATION_WINDOW = 10 \<and>
   (pm \<le> length (messages v) \<and> trace v = [] \<and>
    OracleCall p \<in> set (trace (snd (setup_loop P env pm start N v))) \<longrightarrow>
      (\<exists>cmds w. p = take pm (messages v) @ [commands_history cmds] @ w
         \<and> length w \<le> SETUP_CONVERSATION_WINDOW
         \<and> sublist w (drop pm (messages (snd (setup_loop P env pm start N v)))))) \<and>
   (pm' \<le> length (messages v2) \<and> trace v2 = [] \<and>
    OracleCall p' \<in> set (trace (snd (verify_loop env' pm' N' v2))) \<longrightarrow>
      (\<exists>w. p' = take pm' (messages v2) @ w
         \<and> length w \<le> VERIFY_CONVERSATION_WINDOW
         \<and> sublist w (drop pm' (messages (snd (verify_loop env' pm' N' v2))))))"
proof (intro conjI impI)
  show "SETUP_CONVERSATION_WINDOW = 5" by (simp add: SETUP_CONVERSATION_WINDOW_def)
  show "VERIFY_CONVERSATION_WINDOW = 10" by (simp add: VERIFY_CONVERSATION_WINDOW_def)
next
  assume h: "pm \<le> length (messages v) \<and> trace v = [] \<and>
    OracleCall p \<in> set (trace (snd (setup_loop P env pm start N v)))"
  obtain e u where run: "setup_loop P env pm start N v = (e, u)" by (cases "setup_loop P env pm start N v")
  from setup_loop_prompts[OF run, of p] h run
  show "\<exists>cmds w. p = take pm (messages v) @ [commands_history cmds] @ w
         \<and> length w \<le> SETUP_CONVERSATION_WINDOW
         \<and> sublist w (drop pm (messages (snd (setup_loop P env pm start N v))))"
    by auto
next
  assume h: "pm' \<le> length (messages v2) \<and> trace v2 = [] \<and>
    OracleCall p' \<in> set (trace (snd (verify_loop env' pm' N' v2)))"
  obtain e u where run: "verify_loop env' pm' N' v2 = (e, u)" by (cases "verify_loop env' pm' N' v2")
  from verify_loop_prompts[OF run, of p'] h run
  show "\<exists>w. p' = take pm' (messages v2) @ w
         \<and> length w \<le> VERIFY_CONVERSATION_WINDOW
         \<and> sublist w (drop pm' (messages (snd (verify_loop env' pm' N' v2))))"
    by auto
qed

theorem C5_prompt_window_witness:
  "2 \<le> length (messages setup_vars0) \<and> trace setup_vars0 = [] \<and>
   OracleCall (opening_messages @ [commands_history [''ls'', ''ls'', ''ls'']] @
        [HumanMessage (''Observation:'' @ [CHR 0x0A] @ ''ok''),
         AIMessage ''<command>ls</command>'',
         HumanMessage (''Observation:'' @ [CHR 0x0A] @ ''ok''),
         AIMessage ''<command>ls</command>'',
         HumanMessage (''Observation:'' @ [CHR 0x0A] @ ''ok'')])
     \<in> set (trace (snd (setup_loop spec_parser (oracle_says ''<command>ls</command>'') 2
                          (Some 0) 4 setup_vars0))) \<and>
   (\<exists>cmds w. opening_messages @ [commands_history [''ls'', ''ls'', ''ls'']] @
        [HumanMessage (''Observation:'' @ [CHR 0x0A] @ ''ok''),
         AIMessage ''<command>ls</command>'',
         HumanMessage (''Observation:'' @ [CHR 0x0A] @ ''ok''),
         AIMessage ''<command>ls</command>'',
         HumanMessage (''Observation:'' @ [CHR 0x0A] @ ''ok'')]
        = take 2 (messages setup_vars0) @ [commands_history cmds] @ w
      \<and> length w \<le> SETUP_CONVERSATION_WINDOW
      \<and> sublist w (drop 2 (messages (snd (setup_loop spec_parser
            (oracle_says ''<command>ls</command>'') 2 (Some 0) 4 setup_vars0))))) \<and>
   2 \<le> length (messages verify_vars0) \<and> trace verify_vars0 = [] \<and>
   OracleCall (opening_messages @ [AIMessage ''<command>ls</command>'',
        HumanMessage (''Observation:'' @ [CHR 0x0A] @ ''ok'')])
     \<in> set (trace (snd (verify_loop (oracle_says ''<command>ls</command>'') 2 2 verify_vars0))) \<and>
   (\<exists>w. opening_messages @ [AIMessage ''<command>ls</command>'',
        HumanMessage (''Observation:'' @ [CHR 0x0A] @ ''ok'')]
        = take 2 (messages verify_vars0) @ w
      \<and> length w \<le> VERIFY_CONVERSATION_WINDOW
      \<and> sublist w (drop 2 (messages (snd (verify_loop (oracle_says ''<command>ls</command>'') 2 2
            verify_vars0)))))"
proof -
  have s1: "2 \<le> length (messages setup_vars0) \<and> trace setup_vars0 = []"
    by (simp add: setup_vars0_def opening_messages_def)
  have s2: "OracleCall (opening_messages @ [commands_history [''ls'', ''ls'', ''ls'']] @
        [HumanMessage (''Observation:'' @ [CHR 0x0A] @ ''ok''),
         AIMessage ''<command>ls</command>'',
         HumanMessage (''Observation:'' @ [CHR 0x0A] @ ''ok''),
         AIMessage ''<command>ls</command>'',
         HumanMessage (''Observation:'' @ [CHR 0x0A] @ ''ok'')])
     \<in> set (trace (snd (setup_loop spec_parser (oracle_says ''<command>ls</command>'') 2
                          (Some 0) 4 setup_vars0)))"
    by code_simp
  have v1: "2 \<le> length (messages verify_vars0) \<and> trace verify_vars0 = []"
    by (simp add: verify_vars0_def opening_messages_def)
  have v2: "OracleCall (opening_messages @ [AIMessage ''<command>ls</command>'',
        HumanMessage (''Observation:'' @ [CHR 0x0A] @ ''ok'')])
     \<in> set (trace (snd (verify_loop (oracle_says ''<command>ls</command>'') 2 2 verify_vars0)))"
    by code_simp
  from C5_prompt_keeps_prefix_and_bounded_window
         [of 2 setup_vars0 _ spec_parser "oracle_says ''<command>ls</command>''" "Some 0" 4
             2 verify_vars0 _ "oracle_says ''<command>ls</command>''" 2]
       s1 s2 v1 v2
  show ?thesis by blast
qed

text \<open>
  The claim C6 as stated fails under the setup grammar on a command tag without content:
  the parser tests \<open>if command:\<close>, the empty text is false, and the reply falls through
  to the later tests.
\<close>

theorem C6_empty_command_parses_as_stop:
  "sublist ''<command>'' ''<command></command><stop></stop>''
   \<and> sublist ''<stop>'' ''<command></command><stop></stop>''
   \<and> parse_setup_action spec_parser ''<command></command><stop></stop>'' = Some SetupStop"
  by code_simp

text \<open>
  C6 (amended). Under the verify grammar a reply containing \<open><command>\<close> parses as a
  command whatever else it contains, and a reply without it containing \<open><issue>\<close> parses
  as an issue. Under the setup grammar the order command, search, stop holds for tags
  with content: a non-empty extracted command wins over everything, a non-empty search
  wins when the command is missing or empty, and stop is returned when both are missing
  or empty and both stop tags are present. With the helpers modelled from the spec, a
  reply whose first command tag encloses a non-empty text parses as that command.
\<close>

theorem C6_parser_priority:
  "(sublist ''<command>'' r \<longrightarrow> (\<exists>x. parse_verify_action r = Inr (Some (VerifyCommand x))))
   \<and> (\<not> sublist ''<command>'' r \<and> sublist ''<issue>'' r \<longrightarrow>
        (\<exists>x. parse_verify_action r = Inr (Some (VerifyIssue x))))
   \<and> (extract_tag_content P (clean_response P r) ''command'' = Some c \<and> c \<noteq> [] \<longrightarrow>
        parse_setup_action P r = Some (SetupCommand c))
   \<and> (\<not> truthy (extract_tag_content P (clean_response P r) ''command'')
        \<and> extract_tag_content P (clean_response P r) ''search'' = Some q \<and> q \<noteq> [] \<longrightarrow>
        parse_setup_action P r = Some (SetupSearch q))
   \<and> (\<not> truthy (extract_tag_content P (clean_response P r) ''command'')
        \<and> \<not> truthy (extract_tag_content P (clean_response P r) ''search'')
        \<and> sublist ''<stop>'' (clean_response P r) \<and> sublist ''</stop>'' (clean_response P r) \<longrightarrow>
        parse_setup_action P r = Some SetupStop)
   \<and> (r = pre @ ''<command>'' @ c @ ''</command>'' @ post \<and> c \<noteq> []
        \<and> \<not> sublist ''</think>'' r \<and> \<not> sublist ''<command>'' pre \<and> \<not> sublist ''</command>'' c \<longrightarrow>
        parse_setup_action spec_parser r = Some (SetupCommand c))"
proof (intro conjI impI)
  assume "sublist ''<command>'' r"
  then show "\<exists>x. parse_verify_action r = Inr (Some (VerifyCommand x))"
    by (rule parse_verify_command)
next
  assume "\<not> sublist ''<command>'' r \<and> sublist ''<issue>'' r"
  then show "\<exists>x. parse_verify_action r = Inr (Some (VerifyIssue x))"
    by (simp add: parse_verify_issue)
next
  assume "extract_tag_content P (clean_response P r) ''command'' = Some c \<and> c \<noteq> []"
  then show "parse_setup_action P r = Some (SetupCommand c)"
    by (simp add: parse_setup_action_def)
next
  assume "\<not> truthy (extract_tag_content P (clean_response P r) ''command'')
        \<and> extract_tag_content P (clean_response P r) ''search'' = Some q \<and> q \<noteq> []"
  then show "parse_setup_action P r = Some (SetupSearch q)"
    by (simp add: parse_setup_action_def)
next
  assume "\<not> truthy (extract_tag_content P (clean_response P r) ''command'')
        \<and> \<not> truthy (extract_tag_content P (clean_response P r) ''search'')
        \<and> sublist ''<stop>'' (clean_response P r) \<and> sublist ''</stop>'' (clean_response P r)"
  then show "parse_setup_action P r = Some SetupStop"
    by (simp add: parse_setup_action_def)
next
  assume h: "r = pre @ ''<command>'' @ c @ ''</command>'' @ post \<and> c \<noteq> []
        \<and> \<not> sublist ''</think>'' r \<and> \<not> sublist ''<command>'' pre \<and> \<not> sublist ''</command>'' c"
  then have "\<not> sublist ''</think>'' r" by blast
  then have "after_first ''</think>'' r = None"
    by (rule after_first_none[rotated]) simp
  then have cl: "spec_clean_response r = r"
    by (simp add: spec_clean_response_def)
  from h have "r = pre @ ''<command>'' @ c @ ''</command>'' @ post"
    and "\<not> sublist ''<command>'' pre" and "\<not> sublist ''</command>'' c"
    by blast+
  then have ex: "spec_extract_tag_content r ''command'' = Some c"
    by (rule spec_extract_command)
  from h have "c \<noteq> []" by simp
  with cl ex show "parse_setup_action spec_parser r = Some (SetupCommand c)"
    by (simp add: parse_setup_action_def spec_parser_def)
qed

theorem C6_priority_witness:
  "sublist ''<command>'' ''<issue>x</issue><command>ls</command>''
   \<and> (\<exists>x. parse_verify_action ''<issue>x</issue><command>ls</command>''
             = Inr (Some (VerifyCommand x)))
   \<and> \<not> sublist ''<command>'' ''<issue>x</issue>'' \<and> sublist ''<issue>'' ''<issue>x</issue>''
   \<and> (\<exists>x. parse_verify_action ''<issue>x</issue>'' = Inr (Some (VerifyIssue x)))
   \<and> extract_tag_content spec_parser
         (clean_response spec_parser ''<stop></stop><search>q</search><command>ls</command>'')
         ''command'' = Some ''ls''
   \<and> parse_setup_action spec_parser ''<stop></stop><search>q</search><command>ls</command>''
        = Some (SetupCommand ''ls'')
   \<and> extract_tag_content spec_parser
         (clean_response spec_parser ''<stop></stop><search>q</search>'') ''search'' = Some ''q''
   \<and> parse_setup_action spec_parser ''<stop></stop><search>q</search>'' = Some (SetupSearch ''q'')
   \<and> sublist ''<stop>'' (clean_response spec_parser ''<stop></stop>'')
   \<and> parse_setup_action spec_parser ''<stop></stop>'' = Some SetupStop"
proof -
  note all = C6_parser_priority
  have h1: "sublist ''<command>'' ''<issue>x</issue><command>ls</command>''"
    by code_simp
  have c1: "\<exists>x. parse_verify_action ''<issue>x</issue><command>ls</command>''
             = Inr (Some (VerifyCommand x))"
    by (rule all[THEN conjunct1, rule_format, OF h1])
  have h2: "\<not> sublist ''<command>'' ''<issue>x</issue>'' \<and> sublist ''<issue>'' ''<issue>x</issue>''"
    by code_simp
  have c2: "\<exists>x. parse_verify_action ''<issue>x</issue>'' = Inr (Some (VerifyIssue x))"
    by (rule all[THEN conjunct2, THEN conjunct1, rule_format, OF h2])
  have h3: "extract_tag_content spec_parser
         (clean_response spec_parser ''<stop></stop><search>q</search><command>ls</command>'')
         ''command'' = Some ''ls'' \<and> ''ls'' \<noteq> []"
    by code_simp
  have c3: "parse_setup_action spec_parser ''<stop></stop><search>q</search><command>ls</command>''
        = Some (SetupCommand ''ls'')"
    by (rule all[THEN conjunct2, THEN conjunct2, THEN conjunct1, rule_format, OF h3])
  have h4: "\<not> truthy (extract_tag_content spec_parser
         (clean_response spec_parser ''<stop></stop><search>q</search>'') ''command'')
     \<and> extract_tag_content spec_parser
         (clean_response spec_parser ''<stop></stop><search>q</search>'') ''search'' = Some ''q''
     \<and> ''q'' \<noteq> []"
    by code_simp
  have c4: "parse_setup_action spec_parser ''<stop></stop><search>q</search>''
        = Some (SetupSearch ''q'')"
    by (rule all[THEN conjunct2, THEN conjunct2, THEN conjunct2, THEN conjunct1, rule_format,
                 OF h4])
  have h5: "\<not> truthy (extract_tag_content spec_parser
         (clean_response spec_parser ''<stop></stop>'') ''command'')
     \<and> \<not> truthy (extract_tag_content spec_parser
         (clean_response spec_parser ''<stop></stop>'') ''search'')
     \<and> sublist ''<stop>'' (clean_response spec_parser ''<stop></stop>'')
     \<and> sublist ''</stop>'' (clean_response spec_parser ''<stop></stop>'')"
    by code_simp
  have c5: "parse_setup_action spec_parser ''<stop></stop>'' = Some SetupStop"
    by (rule all[THEN conjunct2, THEN conjunct2, THEN conjunct2, THEN conjunct2, THEN conjunct1,
                 rule_format, OF h5])
  have h6: "''<stop></stop><search>q</search><command>ls</command>''
              = ''<stop></stop><search>q</search>'' @ ''<command>'' @ ''ls'' @ ''</command>'' @ []
     \<and> ''ls'' \<noteq> []
     \<and> \<not> sublist ''</think>'' ''<stop></stop><search>q</search><command>ls</command>''
     \<and> \<not> sublist ''<command>'' ''<stop></stop><search>q</search>''
     \<and> \<not> sublist ''</command>'' ''ls''"
    by code_simp
  have c6: "parse_setup_action spec_parser ''<stop></stop><search>q</search><command>ls</command>''
        = Some (SetupCommand ''ls'')"
    by (rule all[THEN conjunct2, THEN conjunct2, THEN conjunct2, THEN conjunct2, THEN conjunct2,
                 rule_format, OF h6])
  from h1 c1 h2 c2 h3 c3 h4 c4 h5 c5 c6 show ?thesis by blast
qed

text \<open>
  The claim C7 as stated fails on the terminal action of the setup loop: on a stop
  action the loop leaves at \<open>if observation.is_stop: break\<close>, before the observation is
  turned into a message, so the history ends with the reply of the oracle.
\<close>

theorem C7_setup_stop_appends_no_observation:
  "parse_setup_action spec_parser ''<stop></stop>'' = Some SetupStop
   \<and> setup_run spec_parser (oracle_says ''<stop></stop>'') ''sys'' ''task'' 3 fresh_state =
       (Inr \<lparr>s_messages = opening_messages @ [AIMessage ''<stop></stop>''],
             s_setup_messages = [AIMessage ''<stop></stop>''],
             s_setup_commands = [], s_commands = []\<rparr>,
        [ClockRead, OracleCall (opening_messages @ [commands_history []])])"
  by code_simp

text \<open>
  C7 (amended). In every pass of the verify loop that executes an action, the terminal
  issue action included, the reply of the oracle (cut at \<open></think>\<close> as the loop does when
  the reply has \<open><think>\<close>) and the observation are both appended to the history before
  the loop continues or stops; the action is the one parsed from that text. In every pass
  of the setup loop
  that executes a command or a search, or reprompts, both are appended as well; on a stop
  action only the reply is appended and the loop stops.
\<close>

theorem C7_reply_and_observation_appended:
  "(verify_body env pm v = Break u \<or> verify_body env pm v = Continue u \<longrightarrow>
      (\<exists>reply content action obs.
         llm_invoke env (step v + 1) (verify_input_messages pm (messages v)) = Inr reply
         \<and> (if sublist ''<think>'' reply then index (str_split ''</think>'' reply) 1 else Inr reply)
              = Inr content
         \<and> parse_verify_action content = Inr (Some action)
         \<and> snd (observation_for_verify_action env (step v + 1) (Some action))
              = Inr (VerifyObservation obs)
         \<and> messages u = messages v @
              [AIMessage content, HumanMessage (''Observation:'' @ [CHR 0x0A] @ obs)]))
   \<and> (setup_body P env' pm' start w = Continue u' \<longrightarrow>
      (\<exists>reply obs.
         llm_invoke env' (step w + 1) (setup_input_messages pm' (messages w) (commands w))
              = Inr reply
         \<and> snd (observation_for_setup_action env' (step w + 1) (parse_setup_action P reply))
              = Inr (SetupObservation obs False)
         \<and> messages u' = messages w @
              [AIMessage reply, HumanMessage (''Observation:'' @ [CHR 0x0A] @ obs)]))
   \<and> (setup_body P env' pm' start w = Break u' \<longrightarrow>
      (\<exists>reply.
         llm_invoke env' (step w + 1) (setup_input_messages pm' (messages w) (commands w))
              = Inr reply
         \<and> parse_setup_action P reply = Some SetupStop
         \<and> messages u' = messages w @ [AIMessage reply]))"
proof (intro conjI impI)
  assume "verify_body env pm v = Break u \<or> verify_body env pm v = Continue u"
  then show "\<exists>reply content action obs.
         llm_invoke env (step v + 1) (verify_input_messages pm (messages v)) = Inr reply
         \<and> (if sublist ''<think>'' reply then index (str_split ''</think>'' reply) 1 else Inr reply)
              = Inr content
         \<and> parse_verify_action content = Inr (Some action)
         \<and> snd (observation_for_verify_action env (step v + 1) (Some action))
              = Inr (VerifyObservation obs)
         \<and> messages u = messages v @
              [AIMessage content, HumanMessage (''Observation:'' @ [CHR 0x0A] @ obs)]"
    by (auto simp: verify_body_def Let_def
        split: sum.splits option.splits prod.splits if_splits VerifyAction.splits)
next
  assume "setup_body P env' pm' start w = Continue u'"
  then show "\<exists>reply obs.
         llm_invoke env' (step w + 1) (setup_input_messages pm' (messages w) (commands w))
              = Inr reply
         \<and> snd (observation_for_setup_action env' (step w + 1) (parse_setup_action P reply))
              = Inr (SetupObservation obs False)
         \<and> messages u' = messages w @
              [AIMessage reply, HumanMessage (''Observation:'' @ [CHR 0x0A] @ obs)]"
    by (auto simp: setup_body_def Let_def
        split: sum.splits option.splits prod.splits if_splits SetupAction.splits)
next
  assume "setup_body P env' pm' start w = Break u'"
  then show "\<exists>reply.
         llm_invoke env' (step w + 1) (setup_input_messages pm' (messages w) (commands w))
              = Inr reply
         \<and> parse_setup_action P reply = Some SetupStop
         \<and> messages u' = messages w @ [AIMessage reply]"
    by (auto simp: setup_body_def Let_def
        split: sum.splits option.splits prod.splits if_splits SetupAction.splits)
qed

theorem C7_history_witness:
  "verify_body (oracle_says ''<issue>none</issue>'') 2 verify_vars0 = Break verify_vars_after_issue
   \<and> (\<exists>reply content action obs.
         llm_invoke (oracle_says ''<issue>none</issue>'') (step verify_vars0 + 1)
              (verify_input_messages 2 (messages verify_vars0)) = Inr reply
         \<and> (if sublist ''<think>'' reply then index (str_split ''</think>'' reply) 1 else Inr reply)
              = Inr content
         \<and> parse_verify_action content = Inr (Some action)
         \<and> snd (observation_for_verify_action (oracle_says ''<issue>none</issue>'')
                   (step verify_vars0 + 1) (Some action))
              = Inr (VerifyObservation obs)
         \<and> messages verify_vars_after_issue = messages verify_vars0 @
              [AIMessage content, HumanMessage (''Observation:'' @ [CHR 0x0A] @ obs)])
   \<and> setup_body spec_parser (oracle_says ''<command>ls</command>'') 2 (Some 0) setup_vars0
        = Continue setup_vars_after_command
   \<and> (\<exists>reply obs.
         llm_invoke (oracle_says ''<command>ls</command>'') (step setup_vars0 + 1)
              (setup_input_messages 2 (messages setup_vars0) (commands setup_vars0)) = Inr reply
         \<and> snd (observation_for_setup_action (oracle_says ''<command>ls</command>'')
                   (step setup_vars0 + 1) (parse_setup_action spec_parser reply))
              = Inr (SetupObservation obs False)
         \<and> messages setup_vars_after_command = messages setup_vars0 @
              [AIMessage reply, HumanMessage (''Observation:'' @ [CHR 0x0A] @ obs)])
   \<and> setup_body spec_parser (oracle_says ''<stop></stop>'') 2 (Some 0) setup_vars0
        = Break setup_vars_after_stop
   \<and> (\<exists>reply.
         llm_invoke (oracle_says ''<stop></stop>'') (step setup_vars0 + 1)
              (setup_input_messages 2 (messages setup_vars0) (commands setup_vars0)) = Inr reply
         \<and> parse_setup_action spec_parser reply = Some SetupStop
         \<and> messages setup_vars_after_stop = messages setup_vars0 @ [AIMessage reply])"
proof -
  have a: "verify_body (oracle_says ''<issue>none</issue>'') 2 verify_vars0
             = Break verify_vars_after_issue"
    by code_simp
  have b: "setup_body spec_parser (oracle_says ''<command>ls</command>'') 2 (Some 0) setup_vars0
             = Continue setup_vars_after_command"
    by code_simp
  have c: "setup_body spec_parser (oracle_says ''<stop></stop>'') 2 (Some 0) setup_vars0
             = Break setup_vars_after_stop"
    by code_simp
  from C7_reply_and_observation_appended
         [of "oracle_says ''<issue>none</issue>''" 2 verify_vars0 verify_vars_after_issue
             spec_parser "oracle_says ''<command>ls</command>''" 2 "Some 0" setup_vars0
             setup_vars_after_command] a b
  have ab: "(\<exists>reply content action obs.
         llm_invoke (oracle_says ''<issue>none</issue>'') (step verify_vars0 + 1)
              (verify_input_messages 2 (messages verify_vars0)) = Inr reply
         \<and> (if sublist ''<think>'' reply then index (str_split ''</think>'' reply) 1 else Inr reply)
              = Inr content
         \<and> parse_verify_action content = Inr (Some action)
         \<and> snd (observation_for_verify_action (oracle_says ''<issue>none</issue>'')
                   (step verify_vars0 + 1) (Some action))
              = Inr (VerifyObservation obs)
         \<and> messages verify_vars_after_issue = messages verify_vars0 @
              [AIMessage content, HumanMessage (''Observation:'' @ [CHR 0x0A] @ obs)])
   \<and> (\<exists>reply obs.
         llm_invoke (oracle_says ''<command>ls</command>'') (step setup_vars0 + 1)
              (setup_input_messages 2 (messages setup_vars0) (commands setup_vars0)) = Inr reply
         \<and> snd (observation_for_setup_action (oracle_says ''<command>ls</command>'')
                   (step setup_vars0 + 1) (parse_setup_action spec_parser reply))
              = Inr (SetupObservation obs False)
         \<and> messages setup_vars_after_command = messages setup_vars0 @
              [AIMessage reply, HumanMessage (''Observation:'' @ [CHR 0x0A] @ obs)])"
    by blast
  from C7_reply_and_observation_appended
         [of "oracle_says ''<issue>none</issue>''" 2 verify_vars0 verify_vars_after_issue
             spec_parser "oracle_says ''<stop></stop>''" 2 "Some 0" setup_vars0
             setup_vars_after_stop] c
  have cc: "(\<exists>reply.
         llm_invoke (oracle_says ''<stop></stop>'') (step setup_vars0 + 1)
              (setup_input_messages 2 (messages setup_vars0) (commands setup_vars0)) = Inr reply
         \<and> parse_setup_action spec_parser reply = Some SetupStop
         \<and> messages setup_vars_after_stop = messages setup_vars0 @ [AIMessage reply])"
    by blast
  from a b c ab cc show ?thesis by blast
qed

text \<open>
  The claim C8 as stated, for every stage, fails on the setup stage: it does not look at
  \<open>state["exception"]\<close>. With an exception stored by an earlier stage it reads the clock,
  calls the oracle and returns its own dictionary.
\<close>

theorem C8_setup_runs_with_stored_exception:
  "exception failed_state = Some (CollaboratorError ''no session'')
   \<and> setup_stage spec_parser (oracle_says ''<stop></stop>'') ''sys'' ''task'' 3 failed_state =
       Returned \<lparr>s_messages = opening_messages @ [AIMessage ''<stop></stop>''],
                 s_setup_messages = [AIMessage ''<stop></stop>''],
                 s_setup_commands = [], s_commands = []\<rparr>
   \<and> snd (setup_run spec_parser (oracle_says ''<stop></stop>'') ''sys'' ''task'' 3 failed_state) =
       [ClockRead, OracleCall (opening_messages @ [commands_history []])]"
  by code_simp

text \<open>
  C8 (amended). The verify stage tests \<open>state["exception"]\<close> first and re-raises a stored
  exception before any call to a collaborator; the setup stage has no such test and
  runs the same whatever is stored. Every exception raised inside a function wrapped
  by \<open>auto_catch\<close>, the two stages included, is returned as \<open>{"exception": e}\<close>.
\<close>

theorem C8_verify_reraises_and_wrapper_captures:
  "(exception state = Some e \<longrightarrow>
      verify_run env sys_text task_text N state = (Inl e, [])
      \<and> verify env sys_text task_text N state = ExceptionDict e)
   \<and> (fst (verify_run env sys_text task_text N state) = Inl e' \<longrightarrow>
      verify env sys_text task_text N state = ExceptionDict e')
   \<and> (fst (setup_run P env sys_text task_text N state) = Inl e' \<longrightarrow>
      setup_stage P env sys_text task_text N state = ExceptionDict e')
   \<and> (func args = Inl e' \<longrightarrow> auto_catch func args = ExceptionDict e')
   \<and> setup_run P env sys_text task_text N (state\<lparr>exception := x\<rparr>)
       = setup_run P env sys_text task_text N state"
proof (intro conjI impI)
  assume "exception state = Some e"
  then show "verify_run env sys_text task_text N state = (Inl e, [])"
    by (simp add: verify_run_def)
  then show "verify env sys_text task_text N state = ExceptionDict e"
    by (simp add: verify_def auto_catch_def)
next
  assume "fst (verify_run env sys_text task_text N state) = Inl e'"
  then show "verify env sys_text task_text N state = ExceptionDict e'"
    by (simp add: verify_def auto_catch_def)
next
  assume "fst (setup_run P env sys_text task_text N state) = Inl e'"
  then show "setup_stage P env sys_text task_text N state = ExceptionDict e'"
    by (simp add: setup_stage_def auto_catch_def)
next
  assume "func args = Inl e'"
  then show "auto_catch func args = ExceptionDict e'"
    by (simp add: auto_catch_def)
next
  show "setup_run P env sys_text task_text N (state\<lparr>exception := x\<rparr>)
       = setup_run P env sys_text task_text N state"
    by (simp add: setup_run_def)
qed

theorem C8_capture_witness:
  "exception failed_state = Some (CollaboratorError ''no session'')
   \<and> verify_run (oracle_says ''<issue>none</issue>'') ''sys'' ''task'' 3 failed_state
        = (Inl (CollaboratorError ''no session''), [])
   \<and> verify (oracle_says ''<issue>none</issue>'') ''sys'' ''task'' 3 failed_state
        = ExceptionDict (CollaboratorError ''no session'')
   \<and> fst (verify_run (oracle_says ''hello'') ''sys'' ''task'' 3 fresh_state)
        = Inl AttributeError
   \<and> verify (oracle_says ''hello'') ''sys'' ''task'' 3 fresh_state
        = ExceptionDict AttributeError
   \<and> fst (setup_run spec_parser (oracle_says ''<stop></stop>'') ''sys'' ''task'' 3
             (fresh_state\<lparr>start_time := None\<rparr>))
        = Inl TypeError
   \<and> setup_stage spec_parser (oracle_says ''<stop></stop>'') ''sys'' ''task'' 3
             (fresh_state\<lparr>start_time := None\<rparr>)
        = ExceptionDict TypeError
   \<and> index ([] :: nat list) 0 = Inl IndexError
   \<and> auto_catch (index ([] :: nat list)) 0 = ExceptionDict IndexError"
proof -
  have a: "exception failed_state = Some (CollaboratorError ''no session'')"
    by (simp add: failed_state_def)
  have b: "fst (verify_run (oracle_says ''hello'') ''sys'' ''task'' 3 fresh_state)
        = Inl AttributeError"
    by code_simp
  have c: "fst (setup_run spec_parser (oracle_says ''<stop></stop>'') ''sys'' ''task'' 3
             (fresh_state\<lparr>start_time := None\<rparr>))
        = Inl TypeError"
    by code_simp
  have d: "index ([] :: nat list) 0 = Inl IndexError"
    by (simp add: index_def)
  note all = C8_verify_reraises_and_wrapper_captures
  have v: "verify_run (oracle_says ''<issue>none</issue>'') ''sys'' ''task'' 3 failed_state
        = (Inl (CollaboratorError ''no session''), [])
   \<and> verify (oracle_says ''<issue>none</issue>'') ''sys'' ''task'' 3 failed_state
        = ExceptionDict (CollaboratorError ''no session'')"
    by (rule all[THEN conjunct1, rule_format, OF a])
  have w: "verify (oracle_says ''hello'') ''sys'' ''task'' 3 fresh_state
        = ExceptionDict AttributeError"
    by (rule all[THEN conjunct2, THEN conjunct1, rule_format, OF b])
  have s: "setup_stage spec_parser (oracle_says ''<stop></stop>'') ''sys'' ''task'' 3
             (fresh_state\<lparr>start_time := None\<rparr>)
        = ExceptionDict TypeError"
    by (rule all[THEN conjunct2, THEN conjunct2, THEN conjunct1, rule_format, OF c])
  have f: "auto_catch (index ([] :: nat list)) 0 = ExceptionDict IndexError"
    by (rule all[where func = "index ([] :: nat list)" and args = "0::nat",
                 THEN conjunct2, THEN conjunct2, THEN conjunct2, THEN conjunct1, rule_format,
                 OF d])
  show ?thesis
    by (intro conjI a b c d f s w v[THEN conjunct1] v[THEN conjunct2])
qed

text \<open>
  C9. A call of the oracle client makes between one and five attempts; it fails, with
  \<open>OracleUnavailable\<close>, only after the fifth attempt has failed. The record of a call
  starts with the first attempt, and between two attempts lies exactly one delay: after
  attempt \<open>k\<close> it is \<open>min (5 * 2 ^ (k - 1) + 3 * draw k) 120\<close>, between 5 and 120 for draws
  in the unit interval.
\<close>

theorem C9_at_most_five_attempts_with_backoff:
  assumes "\<forall>k. 0 \<le> draw k \<and> draw k \<le> 1"
  shows "\<exists>n. 1 \<le> n \<and> n \<le> 5
       \<and> snd (invoke draw inst msgs)
           = retry_log (\<lambda>k. min (5 * 2 ^ (k - 1) + 3 * draw k) 120) 1 n
       \<and> attempts (snd (invoke draw inst msgs)) = n
       \<and> hd (snd (invoke draw inst msgs)) = Attempt 1
       \<and> (\<forall>j. 1 \<le> j \<and> j < n \<longrightarrow> isl (inst j msgs))
       \<and> (case fst (invoke draw inst msgs) of
             Inr r \<Rightarrow> inst n msgs = Inr r
           | Inl e \<Rightarrow> e = OracleUnavailable \<and> n = 5 \<and> isl (inst 5 msgs))
       \<and> (\<forall>d. Sleep d \<in> set (snd (invoke draw inst msgs)) \<longrightarrow> 5 \<le> d \<and> d \<le> 120)"
proof -
  let ?wait = "wait_exponential_jitter 5 120 3 draw"
  obtain res evs where run: "invoke draw inst msgs = (res, evs)"
    by (cases "invoke draw inst msgs")
  then have "retry_call 5 ?wait (\<lambda>k. inst k msgs) 1 [] = (res, evs)"
    by (simp add: invoke_def)
  from retry_call_shape[OF this] obtain n where n:
    "1 \<le> n" "n \<le> 5" "evs = retry_log ?wait 1 n"
    "\<forall>j. 1 \<le> j \<and> j < n \<longrightarrow> isl (inst j msgs)"
    "case res of Inr r \<Rightarrow> inst n msgs = Inr r
               | Inl e \<Rightarrow> e = OracleUnavailable \<and> isl (inst n msgs) \<and> 5 \<le> n"
    by auto
  have w: "?wait = (\<lambda>k. min (5 * 2 ^ (k - 1) + 3 * draw k) 120)"
    by (rule ext) (simp add: wait_exponential_jitter_def)
  from n(1,3) have a: "attempts evs = n" by (simp add: attempts_retry_log)
  have h: "hd evs = Attempt 1"
  proof (cases "n = 1")
    case True
    with n(3) show ?thesis by (simp add: retry_log_def)
  next
    case False
    with n(1) have "[1..<n] = 1 # [Suc 1..<n]" by (simp add: upt_conv_Cons)
    with n(3) show ?thesis by (simp add: retry_log_def)
  qed
  have r: "case res of Inr r \<Rightarrow> inst n msgs = Inr r
               | Inl e \<Rightarrow> e = OracleUnavailable \<and> n = 5 \<and> isl (inst 5 msgs)"
    using n(2,5) by (auto split: sum.splits)
  have d: "\<forall>d. Sleep d \<in> set evs \<longrightarrow> 5 \<le> d \<and> d \<le> 120"
  proof (intro allI impI)
    fix d assume "Sleep d \<in> set evs"
    with n(3) obtain j where "d = ?wait j" by (auto dest: sleeps_retry_log)
    with assms wait_bounds[of draw j] show "5 \<le> d \<and> d \<le> 120" by simp
  qed
  from n(1,2,3,4) a h r d run w show ?thesis
    by (intro exI[of _ n]) simp
qed

theorem C9_retry_witness:
  "(\<forall>k. 0 \<le> half_draw k \<and> half_draw k \<le> 1)
   \<and> invoke half_draw flaky_oracle [] =
       (Inr ''hi'', [Attempt 1, Sleep (13 / 2), Attempt 2, Sleep (23 / 2), Attempt 3,
                     Sleep (43 / 2), Attempt 4])
   \<and> (\<exists>n. 1 \<le> n \<and> n \<le> 5
       \<and> snd (invoke half_draw flaky_oracle [])
           = retry_log (\<lambda>k. min (5 * 2 ^ (k - 1) + 3 * half_draw k) 120) 1 n
       \<and> attempts (snd (invoke half_draw flaky_oracle [])) = n
       \<and> hd (snd (invoke half_draw flaky_oracle [])) = Attempt 1
       \<and> (\<forall>j. 1 \<le> j \<and> j < n \<longrightarrow> isl (flaky_oracle j []))
       \<and> (case fst (invoke half_draw flaky_oracle []) of
             Inr r \<Rightarrow> flaky_oracle n [] = Inr r
           | Inl e \<Rightarrow> e = OracleUnavailable \<and> n = 5 \<and> isl (flaky_oracle 5 []))
       \<and> (\<forall>d. Sleep d \<in> set (snd (invoke half_draw flaky_oracle [])) \<longrightarrow> 5 \<le> d \<and> d \<le> 120))"
proof -
  have a: "\<forall>k. 0 \<le> half_draw k \<and> half_draw k \<le> 1" by (simp add: half_draw_def)
  have b: "invoke half_draw flaky_oracle [] =
       (Inr ''hi'', [Attempt 1, Sleep (13 / 2), Attempt 2, Sleep (23 / 2), Attempt 3,
                     Sleep (43 / 2), Attempt 4])"
    by code_simp
  from a b C9_at_most_five_attempts_with_backoff[OF a, of flaky_oracle "[]"]
  show ?thesis by (intro conjI)
qed




end
